theory Spec2Isabelle
  imports Complex_Main "HOL-Library.Log_Nat"
begin

section \<open>Speleo: percolation of a cave map (main.cpp)\<close>

text \<open>
  A shallow embedding of \<^verbatim>\<open>src/Speleo/src/main.cpp\<close>. The C++ \<^verbatim>\<open>int\<close> values of the
  program (coordinates, the cave size, counters) are modelled as \<^typ>\<open>int\<close>: on a map
  that was built for a size between 1 and \<^verbatim>\<open>INT_MAX\<close> every value the traversal computes
  lies between \<open>-1\<close> and the size, so no 32-bit operation wraps.
\<close>

subsection \<open>Binary64 arithmetic\<close>

text \<open>
  A finite \<^verbatim>\<open>double\<close> is represented by its exact rational value. \<open>fl\<close> rounds a
  rational to the nearest binary64 value, ties to even (the default rounding mode): the
  significand has 53 bits, the least exponent is \<open>-1022\<close>. Overflow to infinity is left
  out; no value of this program exceeds \<open>2 ^ 31\<close>.
\<close>

type_synonym double = rat

definition pow2 :: "int \<Rightarrow> rat" where
  "pow2 k = (if 0 \<le> k then 2 ^ nat k else 1 / 2 ^ nat (- k))"

text \<open>\<open>ilog2 q\<close> is \<open>\<lfloor>log\<^sub>2 q\<rfloor>\<close> for a positive rational \<open>q\<close>.\<close>

definition ilog2 :: "rat \<Rightarrow> int" where
  "ilog2 q = (if 1 \<le> q then bitlen \<lfloor>q\<rfloor> - 1 else - bitlen (\<lceil>1 / q\<rceil> - 1))"

text \<open>Rounding to the nearest integer, ties to even.\<close>

definition rne :: "rat \<Rightarrow> int" where
  "rne q = (let f = \<lfloor>q\<rfloor>; d = q - of_int f in
     if d < 1 / 2 then f else if 1 / 2 < d then f + 1 else if even f then f else f + 1)"

definition fl :: "rat \<Rightarrow> double" where
  "fl q = (if q = 0 then 0 else
     (let a = \<bar>q\<bar>; u = pow2 (max (ilog2 a) (- 1022) - 52)
      in sgn q * of_int (rne (a / u)) * u))"

definition dadd :: "double \<Rightarrow> double \<Rightarrow> double" where
  "dadd a b = fl (a + b)"

definition dsub :: "double \<Rightarrow> double \<Rightarrow> double" where
  "dsub a b = fl (a - b)"

text \<open>A quotient by zero is a NaN or an infinity, which is no finite value: \<open>None\<close>.\<close>

definition ddiv :: "double \<Rightarrow> double \<Rightarrow> double option" where
  "ddiv a b = (if b = 0 then None else Some (fl (a / b)))"

subsection \<open>Data model\<close>

text \<open>\<^verbatim>\<open>constexpr auto A{'A'}, B{'B'}, C{'C'}\<close>: the three execution modes.\<close>

datatype mode = A | B | C

text \<open>\<^verbatim>\<open>constexpr auto ENTRY = 0\<close>\<close>

definition ENTRY :: int where
  "ENTRY = 0"

record Region =
  y :: int
  x :: int
  obstructed :: bool
  discovered :: bool

text \<open>The constructor \<^verbatim>\<open>Region(int y, int x, bool obstructed)\<close>.\<close>

definition Region_new :: "int \<Rightarrow> int \<Rightarrow> bool \<Rightarrow> Region" where
  "Region_new i j ob = \<lparr>y = i, x = j, obstructed = ob, discovered = False\<rparr>"

definition IsAccessible :: "Region \<Rightarrow> bool" where
  "IsAccessible r = (\<not> obstructed r)"

definition IsUnknown :: "Region \<Rightarrow> bool" where
  "IsUnknown r = (\<not> discovered r)"

text \<open>\<^verbatim>\<open>struct Map\<close>: the rows of the map and the size read from the user.\<close>

record Map =
  map_c :: "Region list list"
  size_c :: int

text \<open>What the program writes to \<^verbatim>\<open>std::cout\<close>.\<close>

datatype printed =
    ExitFound
  | ExitNotFound
  | Paths "bool list list"
  | Success double "double option"

text \<open>
  \<^verbatim>\<open>class Speleo\<close>, together with the two pieces of process state its methods use: the
  static random engine of \<open>Bernouilli\<close> (the sequence \<open>reng\<close> of uniform variates of
  \<open>[0, 1)\<close> it will deliver, and the number \<open>drawn\<close> of variates taken so far) and the
  console.
\<close>

record Speleo =
  exec_mode :: mode
  sample_size :: int
  accessibility :: double
  cave :: Map
  successful_attempts :: int
  reng :: "nat \<Rightarrow> rat"
  drawn :: nat
  console :: "printed list"

text \<open>
  An access \<^verbatim>\<open>cave[i][j]\<close> outside the vectors is undefined behaviour in C++; the model
  makes it an error.
\<close>

datatype error = OutOfRange

definition bind :: "error + 'a \<Rightarrow> ('a \<Rightarrow> error + 'b) \<Rightarrow> error + 'b" where
  "bind m f = (case m of Inl e \<Rightarrow> Inl e | Inr v \<Rightarrow> f v)"

subsection \<open>Random maps\<close>

text \<open>
  \<^verbatim>\<open>std::bernoulli_distribution B(p); return B(reng);\<close> One uniform variate \<open>u\<close> of
  \<open>[0, 1)\<close> is taken from the engine and the result is \<open>u < p\<close>.
\<close>

definition Bernouilli :: "double \<Rightarrow> Speleo \<Rightarrow> bool \<times> Speleo" where
  "Bernouilli p s = (reng s (drawn s) < p, s\<lparr>drawn := Suc (drawn s)\<rparr>)"

text \<open>The inner loop of \<open>GenerateMap\<close>: \<^verbatim>\<open>for(int x{0}; x < cave.size; ++x)\<close>.\<close>

function GenerateStrip :: "int \<Rightarrow> int \<Rightarrow> Region list \<Rightarrow> Speleo \<Rightarrow> Region list \<times> Speleo" where
  "GenerateStrip i j strip s =
     (if j < size_c (cave s)
      then (case Bernouilli (dsub 1 (accessibility s)) s of
              (ob, s') \<Rightarrow> GenerateStrip i (j + 1) (strip @ [Region_new i j ob]) s')
      else (strip, s))"
  by pat_completeness auto
termination
  by (relation "measure (\<lambda>(i, j, strip, s). nat (size_c (cave s) - j))")
     (auto simp: Bernouilli_def)

declare GenerateStrip.simps [simp del]

lemma GenerateStrip_frame:
  "GenerateStrip i j strip s = (strip', s') \<Longrightarrow> s' = s\<lparr>drawn := drawn s'\<rparr>"
proof (induction i j strip s rule: GenerateStrip.induct)
  case (1 i j strip s)
  show ?case
  proof (cases "j < size_c (cave s)")
    case True
    define s1 where "s1 = s\<lparr>drawn := Suc (drawn s)\<rparr>"
    define ob where "ob = (reng s (drawn s) < dsub 1 (accessibility s))"
    have b: "Bernouilli (dsub 1 (accessibility s)) s = (ob, s1)"
      by (simp add: Bernouilli_def ob_def s1_def)
    from "1.prems" True b
    have "GenerateStrip i (j + 1) (strip @ [Region_new i j ob]) s1 = (strip', s')"
      by (simp add: GenerateStrip.simps [of i j strip s])
    from "1.IH" [OF True b [symmetric] this]
    have "s' = s1\<lparr>drawn := drawn s'\<rparr>" .
    then show ?thesis by (simp add: s1_def)
  next
    case False
    with "1.prems" show ?thesis by (simp add: GenerateStrip.simps [of i j strip s])
  qed
qed

lemma GenerateStrip_cave:
  assumes "(strip', s') = GenerateStrip i j strip s"
  shows "cave s' = cave s"
proof -
  from assms have "s' = s\<lparr>drawn := drawn s'\<rparr>"
    by (intro GenerateStrip_frame [of i j strip s strip']) simp
  then have "cave s' = cave (s\<lparr>drawn := drawn s'\<rparr>)" by simp
  then show ?thesis by simp
qed

text \<open>The outer loop of \<open>GenerateMap\<close>: \<^verbatim>\<open>for(int y{0}; y < cave.size; ++y)\<close>.\<close>

function GenerateRows :: "int \<Rightarrow> Speleo \<Rightarrow> Speleo" where
  "GenerateRows i s =
     (if i < size_c (cave s)
      then (case GenerateStrip i 0 [] s of
              (strip, s') \<Rightarrow>
                GenerateRows (i + 1) (s'\<lparr>cave := (cave s')\<lparr>map_c := map_c (cave s') @ [strip]\<rparr>\<rparr>))
      else s)"
  by pat_completeness auto
termination
  by (relation "measure (\<lambda>(i, s). nat (size_c (cave s) - i))")
     (auto dest: GenerateStrip_cave)

declare GenerateRows.simps [simp del]

definition GenerateMap :: "Speleo \<Rightarrow> Speleo" where
  "GenerateMap s = GenerateRows 0 s"

text \<open>\<^verbatim>\<open>cave.map.clear()\<close>\<close>

definition ResetMap :: "Speleo \<Rightarrow> Speleo" where
  "ResetMap s = s\<lparr>cave := (cave s)\<lparr>map_c := []\<rparr>\<rparr>"

subsection \<open>The exploration stack\<close>

text \<open>
  \<^verbatim>\<open>std::stack<Region> regions_to_scout\<close>: \<open>items\<close> is the content of the stack, top
  first. \<open>pushes\<close> and \<open>pops\<close> are history variables: every region that was ever pushed,
  and every region that was ever popped, latest first. The program never reads them.
\<close>

record scout_stack =
  items :: "Region list"
  pushes :: "Region list"
  pops :: "Region list"

definition new_stack :: scout_stack where
  "new_stack = \<lparr>items = [], pushes = [], pops = []\<rparr>"

definition empty_stack :: "scout_stack \<Rightarrow> bool" where
  "empty_stack st = (items st = [])"

text \<open>\<open>top_stack\<close> and \<open>pop\<close> are only called on a stack that is not empty.\<close>

definition top_stack :: "scout_stack \<Rightarrow> Region" where
  "top_stack st = hd (items st)"

definition push :: "Region \<Rightarrow> scout_stack \<Rightarrow> scout_stack" where
  "push r st = st\<lparr>items := r # items st, pushes := r # pushes st\<rparr>"

definition pop :: "scout_stack \<Rightarrow> scout_stack" where
  "pop st = st\<lparr>items := tl (items st), pops := take 1 (items st) @ pops st\<rparr>"

subsection \<open>The traversal\<close>

text \<open>
  The lambda \<open>ScoutRegion\<close> takes a region by reference and has captured the stack by
  reference: the model returns the region and the stack as the call leaves them. What
  becomes of the returned region is the caller's business: it is stored back where the
  reference pointed to, or dropped when the reference was to a local copy.
\<close>

definition ScoutRegion :: "Region \<Rightarrow> scout_stack \<Rightarrow> Region \<times> scout_stack" where
  "ScoutRegion region st =
     (if IsAccessible region \<and> IsUnknown region
      then (let region' = region\<lparr>discovered := True\<rparr> in (region', push region' st))
      else (region, st))"

definition in_range :: "Map \<Rightarrow> int \<Rightarrow> int \<Rightarrow> bool" where
  "in_range c i j =
     (0 \<le> i \<and> i < int (length (map_c c)) \<and> 0 \<le> j \<and> j < int (length (map_c c ! nat i)))"

definition region_at :: "Map \<Rightarrow> int \<Rightarrow> int \<Rightarrow> Region" where
  "region_at c i j = map_c c ! nat i ! nat j"

definition store_at :: "Map \<Rightarrow> int \<Rightarrow> int \<Rightarrow> Region \<Rightarrow> Map" where
  "store_at c i j r = c\<lparr>map_c := (map_c c)[nat i := (map_c c ! nat i)[nat j := r]]\<rparr>"

text \<open>\<^verbatim>\<open>ScoutRegion(cave[i][j])\<close>: the reference is to the cell of the map.\<close>

definition ScoutRegion_at :: "int \<Rightarrow> int \<Rightarrow> scout_stack \<times> Speleo \<Rightarrow> error + scout_stack \<times> Speleo" where
  "ScoutRegion_at i j = (\<lambda>(st, s).
     if in_range (cave s) i j
     then (case ScoutRegion (region_at (cave s) i j) st of
             (region', st') \<Rightarrow> Inr (st', s\<lparr>cave := store_at (cave s) i j region'\<rparr>))
     else Inl OutOfRange)"

text \<open>
  \<^verbatim>\<open>for(auto region : cave[ENTRY]) { ScoutRegion(region); }\<close> The loop variable is a copy
  of the cell: the region that \<open>ScoutRegion\<close> returns is dropped.
\<close>

fun find_entries :: "Region list \<Rightarrow> scout_stack \<Rightarrow> scout_stack" where
  "find_entries [] st = st"
| "find_entries (region # rest) st =
     (case ScoutRegion region st of (region', st') \<Rightarrow> find_entries rest st')"

text \<open>The four calls at the end of the loop body, for the popped region at \<open>(i, j)\<close>.\<close>

definition scout_around :: "int \<Rightarrow> int \<Rightarrow> scout_stack \<times> Speleo \<Rightarrow> error + scout_stack \<times> Speleo" where
  "scout_around i j c0 =
     bind (if i - 1 \<ge> 0 then ScoutRegion_at (i - 1) j c0 else Inr c0) (\<lambda>c1.
     bind (if j + 1 < size_c (cave (snd c1)) then ScoutRegion_at i (j + 1) c1 else Inr c1) (\<lambda>c2.
     bind (if j - 1 \<ge> 0 then ScoutRegion_at i (j - 1) c2 else Inr c2) (\<lambda>c3.
     if i + 1 < size_c (cave (snd c3)) then ScoutRegion_at (i + 1) j c3 else Inr c3)))"

text \<open>One run of the body of the \<^verbatim>\<open>while\<close> loop ends in \<^verbatim>\<open>break\<close> or at the end of the body.\<close>

datatype 'a flow = Break 'a | Continue 'a

definition explore_body :: "scout_stack \<times> Speleo \<Rightarrow> error + (scout_stack \<times> Speleo) flow" where
  "explore_body = (\<lambda>(st, s).
     let region = top_stack st; i = y region; j = x region;
         s1 = (if i + 1 = size_c (cave s)
               then s\<lparr>successful_attempts := successful_attempts s + 1\<rparr> else s)
     in if i + 1 = size_c (cave s) \<and> exec_mode s \<noteq> A
        then Inr (Break (st, s1))
        else bind (scout_around i j (pop st, s1)) (\<lambda>c. Inr (Continue c)))"

text \<open>The number of cells of the map that \<open>ScoutRegion\<close> would still push.\<close>

definition unknown_count :: "Map \<Rightarrow> nat" where
  "unknown_count c =
     sum_list (map (\<lambda>row. length (filter (\<lambda>r. IsAccessible r \<and> IsUnknown r) row)) (map_c c))"

definition work :: "scout_stack \<times> Speleo \<Rightarrow> nat" where
  "work = (\<lambda>(st, s). unknown_count (cave s) + length (items st))"

lemma filter_update_count:
  assumes "j < length row"
  shows "length (filter P (row[j := r])) + (if P (row ! j) then 1 else 0) =
         length (filter P row) + (if P r then 1 else 0)"
  using assms
proof (induction row arbitrary: j)
  case Nil
  then show ?case by simp
next
  case (Cons a row)
  then show ?case by (cases j) auto
qed

lemma sum_list_update_nat:
  fixes f :: "'a \<Rightarrow> nat"
  assumes "i < length xs"
  shows "sum_list (map f (xs[i := v])) + f (xs ! i) = sum_list (map f xs) + f v"
  using assms
proof (induction xs arbitrary: i)
  case Nil
  then show ?case by simp
next
  case (Cons a xs)
  then show ?case by (cases i) auto
qed

lemma unknown_count_store:
  assumes "in_range c i j"
  shows "unknown_count (store_at c i j r) +
           (if IsAccessible (region_at c i j) \<and> IsUnknown (region_at c i j) then 1 else 0) =
         unknown_count c + (if IsAccessible r \<and> IsUnknown r then 1 else 0)"
proof -
  let ?P = "\<lambda>r. IsAccessible r \<and> IsUnknown r"
  let ?f = "\<lambda>row. length (filter ?P row)"
  from assms have i: "nat i < length (map_c c)" and j: "nat j < length (map_c c ! nat i)"
    by (auto simp: in_range_def)
  have "sum_list (map ?f ((map_c c)[nat i := (map_c c ! nat i)[nat j := r]])) + ?f (map_c c ! nat i)
      = sum_list (map ?f (map_c c)) + ?f ((map_c c ! nat i)[nat j := r])"
    by (rule sum_list_update_nat [OF i])
  moreover have "?f ((map_c c ! nat i)[nat j := r]) + (if ?P (map_c c ! nat i ! nat j) then 1 else 0)
      = ?f (map_c c ! nat i) + (if ?P r then 1 else 0)"
    by (rule filter_update_count [OF j])
  ultimately show ?thesis
    by (simp add: unknown_count_def store_at_def region_at_def split: if_splits)
qed

lemma ScoutRegion_at_work:
  assumes "ScoutRegion_at i j c = Inr c'"
  shows "work c' = work c"
proof -
  obtain st s where c: "c = (st, s)" by (cases c)
  from assms c have r: "in_range (cave s) i j"
    by (auto simp: ScoutRegion_at_def split: if_splits)
  show ?thesis
  proof (cases "IsAccessible (region_at (cave s) i j) \<and> IsUnknown (region_at (cave s) i j)")
    case True
    with assms c r
    have c': "c' = (push ((region_at (cave s) i j)\<lparr>discovered := True\<rparr>) st,
                    s\<lparr>cave := store_at (cave s) i j ((region_at (cave s) i j)\<lparr>discovered := True\<rparr>)\<rparr>)"
      by (auto simp: ScoutRegion_at_def ScoutRegion_def Let_def)
    from unknown_count_store [OF r, of "(region_at (cave s) i j)\<lparr>discovered := True\<rparr>"] True
    show ?thesis by (simp add: c c' work_def push_def IsUnknown_def)
  next
    case False
    with assms c r
    have c': "c' = (st, s\<lparr>cave := store_at (cave s) i j (region_at (cave s) i j)\<rparr>)"
      by (auto simp: ScoutRegion_at_def ScoutRegion_def)
    from unknown_count_store [OF r, of "region_at (cave s) i j"]
    show ?thesis by (simp add: c c' work_def)
  qed
qed

lemma scout_around_work:
  assumes "scout_around i j c = Inr c'"
  shows "work c' = work c"
proof -
  from assms obtain c1 c2 c3 where
    1: "(if i - 1 \<ge> 0 then ScoutRegion_at (i - 1) j c else Inr c) = Inr c1" and
    2: "(if j + 1 < size_c (cave (snd c1)) then ScoutRegion_at i (j + 1) c1 else Inr c1) = Inr c2" and
    3: "(if j - 1 \<ge> 0 then ScoutRegion_at i (j - 1) c2 else Inr c2) = Inr c3" and
    4: "(if i + 1 < size_c (cave (snd c3)) then ScoutRegion_at (i + 1) j c3 else Inr c3) = Inr c'"
    unfolding scout_around_def bind_def by (auto split: sum.splits)
  from 1 have "work c1 = work c" by (auto split: if_splits dest: ScoutRegion_at_work)
  moreover from 2 have "work c2 = work c1" by (auto split: if_splits dest: ScoutRegion_at_work)
  moreover from 3 have "work c3 = work c2" by (auto split: if_splits dest: ScoutRegion_at_work)
  moreover from 4 have "work c' = work c3" by (auto split: if_splits dest: ScoutRegion_at_work)
  ultimately show ?thesis by simp
qed

lemma explore_body_work:
  assumes "explore_body c = Inr (Continue c')" and "\<not> empty_stack (fst c)"
  shows "work c' < work c"
proof -
  obtain st s where c: "c = (st, s)" by (cases c)
  define s1 where "s1 = (if y (top_stack st) + 1 = size_c (cave s)
     then s\<lparr>successful_attempts := successful_attempts s + 1\<rparr> else s)"
  from assms(1) have "scout_around (y (top_stack st)) (x (top_stack st)) (pop st, s1) = Inr c'"
    by (auto simp: explore_body_def c s1_def Let_def bind_def split: if_splits sum.splits)
  then have "work c' = work (pop st, s1)" by (rule scout_around_work)
  moreover have "cave s1 = cave s" by (simp add: s1_def)
  moreover from assms(2) have "length (items (pop st)) < length (items st)"
    by (cases "items st") (auto simp: c pop_def empty_stack_def)
  ultimately show ?thesis by (simp add: work_def c)
qed

text \<open>
  \<^verbatim>\<open>while(!regions_to_scout.empty()) { ... }\<close> The loop ends with an empty stack or at
  \<^verbatim>\<open>break\<close>; an access out of range ends it with the error.
\<close>

function explore :: "scout_stack \<times> Speleo \<Rightarrow> error + scout_stack \<times> Speleo" where
  "explore c =
     (if empty_stack (fst c) then Inr c
      else (case explore_body c of
              Inl e \<Rightarrow> Inl e
            | Inr (Break c') \<Rightarrow> Inr c'
            | Inr (Continue c') \<Rightarrow> explore c'))"
  by pat_completeness auto
termination
  by (relation "measure work") (auto dest: explore_body_work)

declare explore.simps [simp del]

text \<open>
  \<open>Speleo::AttemptCaveTraverse\<close>. \<open>traverse\<close> also returns the stack as the method leaves
  it when it returns.
\<close>

definition traverse :: "Speleo \<Rightarrow> error + scout_stack \<times> Speleo" where
  "traverse s =
     (if 0 \<le> ENTRY \<and> ENTRY < int (length (map_c (cave s)))
      then explore (find_entries (map_c (cave s) ! nat ENTRY) new_stack, s)
      else Inl OutOfRange)"

definition AttemptCaveTraverse :: "Speleo \<Rightarrow> error + Speleo" where
  "AttemptCaveTraverse s = bind (traverse s) (\<lambda>(st, s'). Inr s')"

text \<open>\<open>Speleo::DisplayPaths\<close> prints \<^verbatim>\<open>!region.discovered\<close> for every region, row by row.\<close>

definition DisplayPaths :: "Speleo \<Rightarrow> Speleo" where
  "DisplayPaths s =
     s\<lparr>console := console s @ [Paths (map (map (\<lambda>region. \<not> discovered region)) (map_c (cave s)))]\<rparr>"

subsection \<open>What a traversal leaves alone\<close>

lemma explore_rule:
  assumes "explore c = Inr c'" and "P c"
    and "\<And>c c1. P c \<Longrightarrow> \<not> empty_stack (fst c) \<Longrightarrow> explore_body c = Inr (Continue c1) \<Longrightarrow> P c1"
    and "\<And>c c1. P c \<Longrightarrow> \<not> empty_stack (fst c) \<Longrightarrow> explore_body c = Inr (Break c1) \<Longrightarrow> Q c1"
    and "\<And>c. P c \<Longrightarrow> empty_stack (fst c) \<Longrightarrow> Q c"
  shows "Q c'"
  using assms(1,2)
proof (induction c rule: explore.induct)
  case (1 c)
  show ?case
  proof (cases "empty_stack (fst c)")
    case True
    with "1.prems" have "c' = c" by (simp add: explore.simps [of c])
    with True "1.prems" assms(5) show ?thesis by simp
  next
    case False
    show ?thesis
    proof (cases "explore_body c")
      case (Inl e)
      with False "1.prems" show ?thesis by (simp add: explore.simps [of c])
    next
      case (Inr f)
      show ?thesis
      proof (cases f)
        case (Break c1)
        with Inr False "1.prems" have "c' = c1" by (simp add: explore.simps [of c])
        with assms(4) [OF "1.prems"(2) False] Inr Break show ?thesis by simp
      next
        case (Continue c1)
        with Inr False "1.prems" have e: "explore c1 = Inr c'" by (simp add: explore.simps [of c])
        from Inr Continue have b: "explore_body c = Inr (Continue c1)" by simp
        from assms(3) [OF "1.prems"(2) False b] have "P c1" .
        from "1.IH" [OF False Inr Continue e this] show ?thesis .
      qed
    qed
  qed
qed

lemma ScoutRegion_at_cases:
  assumes "ScoutRegion_at i j (st, s) = Inr c'"
  obtains
    (visit) "in_range (cave s) i j"
      "IsAccessible (region_at (cave s) i j)" "IsUnknown (region_at (cave s) i j)"
      "c' = (push ((region_at (cave s) i j)\<lparr>discovered := True\<rparr>) st,
             s\<lparr>cave := store_at (cave s) i j ((region_at (cave s) i j)\<lparr>discovered := True\<rparr>)\<rparr>)"
  | (skip) "in_range (cave s) i j"
      "\<not> (IsAccessible (region_at (cave s) i j) \<and> IsUnknown (region_at (cave s) i j))"
      "c' = (st, s)"
proof -
  from assms have r: "in_range (cave s) i j"
    by (auto simp: ScoutRegion_at_def split: if_splits)
  show thesis
  proof (cases "IsAccessible (region_at (cave s) i j) \<and> IsUnknown (region_at (cave s) i j)")
    case True
    with assms r show thesis
      by (intro visit) (auto simp: ScoutRegion_at_def ScoutRegion_def Let_def)
  next
    case False
    have "store_at (cave s) i j (region_at (cave s) i j) = cave s"
      by (simp add: store_at_def region_at_def)
    with False assms r show thesis
      by (intro skip) (auto simp: ScoutRegion_at_def ScoutRegion_def)
  qed
qed

lemma scout_around_rule:
  assumes "scout_around i j c = Inr c'" and "P c"
    and "\<And>i' j' c1 c2. P c1 \<Longrightarrow> ScoutRegion_at i' j' c1 = Inr c2 \<Longrightarrow> P c2"
  shows "P c'"
proof -
  from assms(1) obtain c1 c2 c3 where
    1: "(if i - 1 \<ge> 0 then ScoutRegion_at (i - 1) j c else Inr c) = Inr c1" and
    2: "(if j + 1 < size_c (cave (snd c1)) then ScoutRegion_at i (j + 1) c1 else Inr c1) = Inr c2" and
    3: "(if j - 1 \<ge> 0 then ScoutRegion_at i (j - 1) c2 else Inr c2) = Inr c3" and
    4: "(if i + 1 < size_c (cave (snd c3)) then ScoutRegion_at (i + 1) j c3 else Inr c3) = Inr c'"
    unfolding scout_around_def bind_def by (auto split: sum.splits)
  from 1 assms(2,3) have "P c1" by (auto split: if_splits)
  with 2 assms(3) have "P c2" by (auto split: if_splits)
  with 3 assms(3) have "P c3" by (auto split: if_splits)
  with 4 assms(3) show "P c'" by (auto split: if_splits)
qed

lemma explore_body_cases:
  assumes "explore_body (st, s) = Inr f"
  obtains
    (stop) "y (top_stack st) + 1 = size_c (cave s)" "exec_mode s \<noteq> A"
      "f = Break (st, s\<lparr>successful_attempts := successful_attempts s + 1\<rparr>)"
  | (hit) c' where "y (top_stack st) + 1 = size_c (cave s)" "exec_mode s = A" "f = Continue c'"
      "scout_around (y (top_stack st)) (x (top_stack st))
         (pop st, s\<lparr>successful_attempts := successful_attempts s + 1\<rparr>) = Inr c'"
  | (pass) c' where "y (top_stack st) + 1 \<noteq> size_c (cave s)" "f = Continue c'"
      "scout_around (y (top_stack st)) (x (top_stack st)) (pop st, s) = Inr c'"
  using assms
  by (auto simp: explore_body_def Let_def bind_def split: if_splits sum.splits)

text \<open>
  The part of a map that is fixed when its cells are created, and the order in which a
  map can only grow: same size, same cells, and no discovery undone.
\<close>

definition static :: "Map \<Rightarrow> (int \<times> int \<times> bool) list list" where
  "static c = map (map (\<lambda>r. (y r, x r, obstructed r))) (map_c c)"

definition grows :: "Map \<Rightarrow> Map \<Rightarrow> bool" where
  "grows c c' =
     (size_c c' = size_c c \<and> static c' = static c \<and>
      (\<forall>i j. in_range c i j \<longrightarrow> discovered (region_at c i j) \<longrightarrow> discovered (region_at c' i j)))"

lemma static_in_range:
  assumes "static c' = static c"
  shows "in_range c' i j = in_range c i j"
proof -
  from assms have l: "length (map_c c') = length (map_c c)"
    unfolding static_def by (rule map_eq_imp_length_eq)
  have "length (map_c c' ! nat i) = length (map_c c ! nat i)" if "nat i < length (map_c c)"
  proof -
    from assms have "static c' ! nat i = static c ! nat i" by simp
    with that l
    have "map (\<lambda>r. (y r, x r, obstructed r)) (map_c c' ! nat i) =
          map (\<lambda>r. (y r, x r, obstructed r)) (map_c c ! nat i)"
      by (simp add: static_def)
    then show ?thesis by (rule map_eq_imp_length_eq)
  qed
  with l show ?thesis by (auto simp: in_range_def)
qed

lemma static_region:
  assumes "static c' = static c" and "in_range c i j"
  shows "y (region_at c' i j) = y (region_at c i j)"
    and "x (region_at c' i j) = x (region_at c i j)"
    and "obstructed (region_at c' i j) = obstructed (region_at c i j)"
proof -
  from static_in_range [OF assms(1), of i j] assms(2) have r': "in_range c' i j" by simp
  from assms(2) have n: "nat i < length (map_c c)" "nat j < length (map_c c ! nat i)"
    by (auto simp: in_range_def)
  from r' have n': "nat i < length (map_c c')" "nat j < length (map_c c' ! nat i)"
    by (auto simp: in_range_def)
  from assms(1) have "static c' ! nat i ! nat j = static c ! nat i ! nat j" by simp
  with n n'
  have "(\<lambda>r. (y r, x r, obstructed r)) (region_at c' i j) =
        (\<lambda>r. (y r, x r, obstructed r)) (region_at c i j)"
    by (simp add: static_def region_at_def)
  then show "y (region_at c' i j) = y (region_at c i j)"
    and "x (region_at c' i j) = x (region_at c i j)"
    and "obstructed (region_at c' i j) = obstructed (region_at c i j)"
    by simp_all
qed

lemma grows_refl: "grows c c"
  by (simp add: grows_def)

lemma grows_trans:
  assumes "grows c1 c2" and "grows c2 c3"
  shows "grows c1 c3"
proof -
  from assms have "in_range c2 i j = in_range c1 i j" for i j
    by (intro static_in_range) (simp add: grows_def)
  with assms show ?thesis unfolding grows_def by auto
qed

lemma map_update_same:
  assumes "f v = f (xs ! i)"
  shows "map f (xs[i := v]) = map f xs"
proof (cases "i < length xs")
  case True
  with assms show ?thesis by (simp add: map_update list_update_same_conv)
next
  case False
  then show ?thesis by (simp add: not_less list_update_beyond)
qed

lemma region_at_store:
  assumes "in_range c i j" and "0 \<le> i'" and "0 \<le> j'"
  shows "region_at (store_at c i j r) i' j' = (if i' = i \<and> j' = j then r else region_at c i' j')"
  using assms
  by (auto simp: region_at_def store_at_def in_range_def nth_list_update)

lemma grows_store:
  assumes "in_range c i j"
  shows "grows c (store_at c i j ((region_at c i j)\<lparr>discovered := True\<rparr>))"
proof -
  let ?r = "(region_at c i j)\<lparr>discovered := True\<rparr>"
  let ?f = "\<lambda>r. (y r, x r, obstructed r)"
  have "?f ?r = ?f (map_c c ! nat i ! nat j)"
    by (simp add: region_at_def)
  then have "map ?f ((map_c c ! nat i)[nat j := ?r]) = map ?f (map_c c ! nat i)"
    by (rule map_update_same)
  then have "map (map ?f) ((map_c c)[nat i := (map_c c ! nat i)[nat j := ?r]]) = map (map ?f) (map_c c)"
    by (rule map_update_same)
  then have "static (store_at c i j ?r) = static c"
    unfolding static_def store_at_def by simp
  moreover have "discovered (region_at (store_at c i j ?r) i' j')"
    if "in_range c i' j'" "discovered (region_at c i' j')" for i' j'
    using that assms by (simp add: region_at_store in_range_def)
  ultimately show ?thesis by (simp add: grows_def store_at_def)
qed

text \<open>The fields of the object that a traversal does not write.\<close>

definition frame :: "Speleo \<Rightarrow> Speleo \<Rightarrow> bool" where
  "frame s s' =
     (exec_mode s' = exec_mode s \<and> sample_size s' = sample_size s \<and>
      accessibility s' = accessibility s \<and> reng s' = reng s \<and> drawn s' = drawn s \<and>
      console s' = console s)"

lemma frame_refl: "frame s s"
  by (simp add: frame_def)

lemma frame_trans: "frame s1 s2 \<Longrightarrow> frame s2 s3 \<Longrightarrow> frame s1 s3"
  by (simp add: frame_def)


lemma ScoutRegion_at_keeps:
  assumes "ScoutRegion_at i j (st, s) = Inr (st', s')"
  shows "frame s s'" and "grows (cave s) (cave s')"
    and "successful_attempts s' = successful_attempts s"
  using assms
  by (cases rule: ScoutRegion_at_cases; simp add: frame_def grows_refl grows_store)+

lemma scout_around_keeps:
  assumes "scout_around i j (st, s) = Inr (st', s')"
  shows "frame s s' \<and> grows (cave s) (cave s') \<and> successful_attempts s' = successful_attempts s"
proof -
  let ?P = "\<lambda>c. frame s (snd c) \<and> grows (cave s) (cave (snd c)) \<and>
    successful_attempts (snd c) = successful_attempts s"
  have "?P (st', s')"
  proof (rule scout_around_rule [OF assms, where P = ?P])
    show "?P (st, s)" by (simp add: frame_refl grows_refl)
  next
    fix i' j' c1 c2
    assume p: "?P c1" and sc: "ScoutRegion_at i' j' c1 = Inr c2"
    obtain st1 s1 where c1: "c1 = (st1, s1)" by (cases c1)
    obtain st2 s2 where c2: "c2 = (st2, s2)" by (cases c2)
    from sc c1 c2 have "frame s1 s2" "grows (cave s1) (cave s2)"
      "successful_attempts s2 = successful_attempts s1"
      by (auto dest: ScoutRegion_at_keeps)
    with p c1 c2 show "?P c2" by (auto intro: frame_trans grows_trans)
  qed
  then show ?thesis by simp
qed

lemma explore_body_keeps:
  assumes "explore_body (st, s) = Inr f"
  shows "\<exists>st' s'. (f = Break (st', s') \<or> f = Continue (st', s')) \<and> frame s s' \<and>
           grows (cave s) (cave s') \<and> successful_attempts s \<le> successful_attempts s'"
  using assms
proof (cases rule: explore_body_cases)
  case stop
  then show ?thesis by (simp add: frame_def grows_refl)
next
  case (hit c')
  obtain st' s' where c': "c' = (st', s')" by (cases c')
  from hit(4) c' have "frame (s\<lparr>successful_attempts := successful_attempts s + 1\<rparr>) s'"
    "grows (cave s) (cave s')" "successful_attempts s' = successful_attempts s + 1"
    by (auto dest: scout_around_keeps)
  with hit(3) c' show ?thesis by (simp add: frame_def)
next
  case (pass c')
  obtain st' s' where c': "c' = (st', s')" by (cases c')
  from pass(3) c' have "frame s s'" "grows (cave s) (cave s')"
    "successful_attempts s' = successful_attempts s"
    by (auto dest: scout_around_keeps)
  with pass(2) c' show ?thesis by simp
qed

lemma explore_keeps:
  assumes "explore (st, s) = Inr (st', s')"
  shows "frame s s'" and "grows (cave s) (cave s')"
    and "successful_attempts s \<le> successful_attempts s'"
proof -
  let ?P = "\<lambda>c. frame s (snd c) \<and> grows (cave s) (cave (snd c)) \<and>
    successful_attempts s \<le> successful_attempts (snd c)"
  have step: "?P c1" if "?P c" "explore_body c = Inr f" "f = Break c1 \<or> f = Continue c1" for c c1 f
  proof -
    obtain st0 s0 where c: "c = (st0, s0)" by (cases c)
    from explore_body_keeps [of st0 s0 f] that(2,3) c
    have "frame s0 (snd c1) \<and> grows (cave s0) (cave (snd c1)) \<and>
      successful_attempts s0 \<le> successful_attempts (snd c1)"
      by auto
    with that(1) c show ?thesis by (auto intro: frame_trans grows_trans)
  qed
  have "?P (st', s')"
  proof (rule explore_rule [OF assms, where P = ?P and Q = ?P])
    show "?P (st, s)" by (simp add: frame_refl grows_refl)
  qed (use step in blast)+
  then show "frame s s'" and "grows (cave s) (cave s')"
    and "successful_attempts s \<le> successful_attempts s'"
    by simp_all
qed

lemma traverse_keeps:
  assumes "traverse s = Inr (st', s')"
  shows "frame s s'" and "grows (cave s) (cave s')"
    and "successful_attempts s \<le> successful_attempts s'"
  using assms explore_keeps [of "find_entries (map_c (cave s) ! nat ENTRY) new_stack" s st' s']
  by (simp_all add: traverse_def split: if_splits)

lemma AttemptCaveTraverse_traverse:
  "AttemptCaveTraverse s = Inr s' \<longleftrightarrow> (\<exists>st'. traverse s = Inr (st', s'))"
  by (auto simp: AttemptCaveTraverse_def bind_def split: sum.splits)

lemma GenerateRows_frame:
  "exec_mode (GenerateRows i s) = exec_mode s \<and> sample_size (GenerateRows i s) = sample_size s \<and>
   accessibility (GenerateRows i s) = accessibility s \<and>
   successful_attempts (GenerateRows i s) = successful_attempts s \<and>
   reng (GenerateRows i s) = reng s \<and> console (GenerateRows i s) = console s \<and>
   size_c (cave (GenerateRows i s)) = size_c (cave s)"
proof (induction i s rule: GenerateRows.induct)
  case (1 i s)
  show ?case
  proof (cases "i < size_c (cave s)")
    case True
    obtain strip s1 where g: "GenerateStrip i 0 [] s = (strip, s1)"
      by (cases "GenerateStrip i 0 [] s")
    from GenerateStrip_frame [OF g] have s1: "s1 = s\<lparr>drawn := drawn s1\<rparr>" .
    have f: "exec_mode s1 = exec_mode s" "sample_size s1 = sample_size s"
      "accessibility s1 = accessibility s" "successful_attempts s1 = successful_attempts s"
      "reng s1 = reng s" "console s1 = console s" "cave s1 = cave s"
      by (subst s1, simp)+
    from "1.IH" [OF True g [symmetric]] f True g show ?thesis
      by (simp add: GenerateRows.simps [of i s])
  next
    case False
    then show ?thesis by (simp add: GenerateRows.simps [of i s])
  qed
qed

subsection \<open>The three modes\<close>

text \<open>The loop of mode B: \<^verbatim>\<open>for(auto sample{0}; sample < sample_size; sample += 1)\<close>.\<close>

function sample_loop :: "int \<Rightarrow> Speleo \<Rightarrow> error + Speleo" where
  "sample_loop sample s =
     (if sample < sample_size s
      then (case AttemptCaveTraverse (GenerateMap s) of
              Inl e \<Rightarrow> Inl e
            | Inr s' \<Rightarrow> sample_loop (sample + 1) (ResetMap s'))
      else Inr s)"
  by pat_completeness auto
termination
proof (relation "measure (\<lambda>(sample, s). nat (sample_size s - sample))", goal_cases)
  case 1
  show ?case by simp
next
  case (2 sample s s')
  then obtain st' where "traverse (GenerateMap s) = Inr (st', s')"
    by (auto simp: AttemptCaveTraverse_traverse)
  then have "frame (GenerateMap s) s'" by (rule traverse_keeps)
  then have "sample_size s' = sample_size s"
    using GenerateRows_frame [of 0 s] by (simp add: frame_def GenerateMap_def)
  with 2 show ?case by (simp add: ResetMap_def)
qed

declare sample_loop.simps [simp del]

text \<open>Mode A of \<open>Speleo::Run\<close>.\<close>

definition Run_A :: "Speleo \<Rightarrow> error + Speleo" where
  "Run_A s0 =
     (case AttemptCaveTraverse (s0\<lparr>successful_attempts := 0\<rparr>) of
        Inl e \<Rightarrow> Inl e
      | Inr s \<Rightarrow>
          Inr (DisplayPaths
            (s\<lparr>console := console s @
                 [if successful_attempts s > 0 then ExitFound else ExitNotFound]\<rparr>)))"

text \<open>
  Mode B of \<open>Speleo::Run\<close>. The two \<^verbatim>\<open>int\<close> operands of the quotient are converted to
  \<^verbatim>\<open>double\<close> without rounding.
\<close>

definition Run_B :: "Speleo \<Rightarrow> error + Speleo" where
  "Run_B s0 =
     (case sample_loop 0 (s0\<lparr>successful_attempts := 0\<rparr>) of
        Inl e \<Rightarrow> Inl e
      | Inr s \<Rightarrow>
          Inr (s\<lparr>console := console s @
                  [Success (accessibility s)
                     (ddiv (of_int (successful_attempts s)) (of_int (sample_size s)))]\<rparr>))"

text \<open>
  The loop of mode C:
  \<^verbatim>\<open>for(accessibility = 0.0, exec_mode = B; accessibility <= 1.0; accessibility += 0.01) Run();\<close>
  Each call of \<open>Run\<close> finds \<open>exec_mode = B\<close>. The literal \<^verbatim>\<open>0.01\<close> is the binary64 value
  nearest to \<open>1/100\<close>. Nothing in the text of the loop bounds the number of its rounds,
  so the result is an option and \<open>None\<close> stands for a loop that does not end.
\<close>

partial_function (option) sweep_loop :: "Speleo \<Rightarrow> (error + Speleo) option" where
  "sweep_loop s =
     (if accessibility s \<le> 1
      then (case Run_B s of
              Inl e \<Rightarrow> Some (Inl e)
            | Inr s' \<Rightarrow> sweep_loop (s'\<lparr>accessibility := dadd (accessibility s') (fl (1 / 100))\<rparr>))
      else Some (Inr s))"

text \<open>\<open>Speleo::Run\<close>\<close>

definition Run :: "Speleo \<Rightarrow> (error + Speleo) option" where
  "Run s =
     (case exec_mode s of
        A \<Rightarrow> Some (Run_A s)
      | B \<Rightarrow> Some (Run_B s)
      | C \<Rightarrow> sweep_loop (s\<lparr>successful_attempts := 0, accessibility := 0, exec_mode := B\<rparr>))"


subsection \<open>Maps as the program builds them\<close>

text \<open>
  The constructor (through \<open>ReadMapFromConsole\<close>) and \<open>GenerateMap\<close> build the map row by
  row from \<^verbatim>\<open>Region(y, x, ...)\<close>: there are \<open>size\<close> rows of \<open>size\<close> cells, the cell at row
  \<open>i\<close> and column \<open>j\<close> carries the coordinates \<open>(i, j)\<close>, and no cell is discovered. The
  size is at least 1 (\<^verbatim>\<open>BoundedValue(cave.size, 1, INT_MAX, ...)\<close>).
\<close>

definition wf_cave :: "Map \<Rightarrow> bool" where
  "wf_cave c =
     (1 \<le> size_c c \<and>
      map (map (\<lambda>r. (y r, x r))) (map_c c) =
      map (\<lambda>i. map (\<lambda>j. (int i, int j)) [0..<nat (size_c c)]) [0..<nat (size_c c)])"

definition fresh :: "Map \<Rightarrow> bool" where
  "fresh c = list_all (list_all IsUnknown) (map_c c)"

lemma wf_cave_lengths:
  assumes "wf_cave c"
  shows "length (map_c c) = nat (size_c c)"
    and "i < nat (size_c c) \<Longrightarrow> length (map_c c ! i) = nat (size_c c)"
proof -
  let ?n = "nat (size_c c)"
  from assms have e: "map (map (\<lambda>r. (y r, x r))) (map_c c) =
      map (\<lambda>i. map (\<lambda>j. (int i, int j)) [0..<?n]) [0..<?n]"
    by (simp add: wf_cave_def)
  from map_eq_imp_length_eq [OF e] show l: "length (map_c c) = ?n" by simp
  assume i: "i < ?n"
  from e have "map (map (\<lambda>r. (y r, x r))) (map_c c) ! i =
      map (\<lambda>i. map (\<lambda>j. (int i, int j)) [0..<?n]) [0..<?n] ! i"
    by simp
  with i l have "map (\<lambda>r. (y r, x r)) (map_c c ! i) = map (\<lambda>j. (int i, int j)) [0..<?n]"
    by simp
  from map_eq_imp_length_eq [OF this] show "length (map_c c ! i) = ?n" by simp
qed

lemma wf_in_range:
  assumes "wf_cave c"
  shows "in_range c i j \<longleftrightarrow> 0 \<le> i \<and> i < size_c c \<and> 0 \<le> j \<and> j < size_c c"
proof (cases "0 \<le> i \<and> i < size_c c")
  case True
  then have "nat i < nat (size_c c)" by simp
  from wf_cave_lengths [OF assms] this have "length (map_c c) = nat (size_c c)"
    "length (map_c c ! nat i) = nat (size_c c)"
    by simp_all
  with True show ?thesis by (auto simp: in_range_def)
next
  case False
  with wf_cave_lengths(1) [OF assms] show ?thesis by (auto simp: in_range_def)
qed

lemma wf_coords:
  assumes "wf_cave c" and "in_range c i j"
  shows "y (region_at c i j) = i" and "x (region_at c i j) = j"
proof -
  let ?n = "nat (size_c c)"
  from assms have b: "0 \<le> i" "i < size_c c" "0 \<le> j" "j < size_c c"
    by (simp_all add: wf_in_range)
  then have n: "nat i < ?n" "nat j < ?n" by simp_all
  from wf_cave_lengths [OF assms(1)] n have l: "nat i < length (map_c c)"
    "nat j < length (map_c c ! nat i)"
    by simp_all
  from assms(1) have "map (map (\<lambda>r. (y r, x r))) (map_c c) ! nat i ! nat j =
      map (\<lambda>i. map (\<lambda>j. (int i, int j)) [0..<?n]) [0..<?n] ! nat i ! nat j"
    by (simp add: wf_cave_def)
  with l n b have "(\<lambda>r. (y r, x r)) (region_at c i j) = (i, j)"
    by (simp add: region_at_def)
  then show "y (region_at c i j) = i" and "x (region_at c i j) = j" by simp_all
qed

lemma wf_grows:
  assumes "wf_cave c" and "grows c c'"
  shows "wf_cave c'"
proof -
  have "map (map (\<lambda>r. (y r, x r))) (map_c d) = map (map (\<lambda>(a, b, ob). (a, b))) (static d)" for d
    by (simp add: static_def comp_def)
  with assms show ?thesis by (simp add: wf_cave_def grows_def)
qed

subsection \<open>The loop body on a well-formed map\<close>

text \<open>
  On a well-formed map no access is out of range, and the four guarded calls of the
  loop body are a fold of \<open>visit\<close> over the neighbours that lie inside the map, in the
  order north, east, west, south.
\<close>

definition visit :: "int \<times> int \<Rightarrow> scout_stack \<times> Speleo \<Rightarrow> scout_stack \<times> Speleo" where
  "visit q c = (case ScoutRegion_at (fst q) (snd q) c of Inl e \<Rightarrow> c | Inr c' \<Rightarrow> c')"

definition around :: "int \<Rightarrow> int \<Rightarrow> int \<Rightarrow> (int \<times> int) list" where
  "around n i j =
     (if i - 1 \<ge> 0 then [(i - 1, j)] else []) @ (if j + 1 < n then [(i, j + 1)] else []) @
     (if j - 1 \<ge> 0 then [(i, j - 1)] else []) @ (if i + 1 < n then [(i + 1, j)] else [])"

lemma ScoutRegion_at_visit:
  assumes "in_range (cave (snd c)) i j"
  shows "ScoutRegion_at i j c = Inr (visit (i, j) c)"
  using assms
  by (cases c) (simp add: visit_def ScoutRegion_at_def split: prod.splits)

lemma visit_keeps:
  assumes "in_range (cave (snd c)) (fst q) (snd q)"
  shows "frame (snd c) (snd (visit q c))" and "grows (cave (snd c)) (cave (snd (visit q c)))"
    and "successful_attempts (snd (visit q c)) = successful_attempts (snd c)"
proof -
  obtain st s where c: "c = (st, s)" by (cases c)
  obtain st' s' where v: "visit q c = (st', s')" by (cases "visit q c")
  from ScoutRegion_at_visit [of c "fst q" "snd q"] assms c v
  have "ScoutRegion_at (fst q) (snd q) (st, s) = Inr (st', s')" by simp
  from ScoutRegion_at_keeps [OF this] c v
  show "frame (snd c) (snd (visit q c))" and "grows (cave (snd c)) (cave (snd (visit q c)))"
    and "successful_attempts (snd (visit q c)) = successful_attempts (snd c)"
    by simp_all
qed

lemma scout_around_fold:
  assumes "wf_cave (cave (snd c))" and "in_range (cave (snd c)) i j"
  shows "scout_around i j c = Inr (fold visit (around (size_c (cave (snd c))) i j) c)"
proof -
  let ?n = "size_c (cave (snd c))"
  from assms have b: "0 \<le> i" "i < ?n" "0 \<le> j" "j < ?n" by (simp_all add: wf_in_range)
  define c1 where "c1 = (if i - 1 \<ge> 0 then visit (i - 1, j) c else c)"
  have k1: "wf_cave (cave (snd c1)) \<and> size_c (cave (snd c1)) = ?n"
  proof (cases "i - 1 \<ge> 0")
    case True
    with b assms(1) have "in_range (cave (snd c)) (fst (i - 1, j)) (snd (i - 1, j))"
      by (simp add: wf_in_range)
    from visit_keeps(2) [OF this] assms(1) True show ?thesis
      by (auto simp: c1_def grows_def intro: wf_grows)
  qed (use assms(1) in \<open>simp add: c1_def\<close>)
  have s1: "(if i - 1 \<ge> 0 then ScoutRegion_at (i - 1) j c else Inr c) = Inr c1"
    using b assms(1) by (simp add: c1_def ScoutRegion_at_visit wf_in_range)
  define c2 where "c2 = (if j + 1 < ?n then visit (i, j + 1) c1 else c1)"
  have k2: "wf_cave (cave (snd c2)) \<and> size_c (cave (snd c2)) = ?n"
  proof (cases "j + 1 < ?n")
    case True
    with b k1 have "in_range (cave (snd c1)) (fst (i, j + 1)) (snd (i, j + 1))"
      by (simp add: wf_in_range)
    from visit_keeps(2) [OF this] k1 True show ?thesis
      by (auto simp: c2_def grows_def intro: wf_grows)
  qed (use k1 in \<open>simp add: c2_def\<close>)
  have s2: "(if j + 1 < size_c (cave (snd c1)) then ScoutRegion_at i (j + 1) c1 else Inr c1) = Inr c2"
    using b k1 by (simp add: c2_def ScoutRegion_at_visit wf_in_range)
  define c3 where "c3 = (if j - 1 \<ge> 0 then visit (i, j - 1) c2 else c2)"
  have k3: "wf_cave (cave (snd c3)) \<and> size_c (cave (snd c3)) = ?n"
  proof (cases "j - 1 \<ge> 0")
    case True
    with b k2 have "in_range (cave (snd c2)) (fst (i, j - 1)) (snd (i, j - 1))"
      by (simp add: wf_in_range)
    from visit_keeps(2) [OF this] k2 True show ?thesis
      by (auto simp: c3_def grows_def intro: wf_grows)
  qed (use k2 in \<open>simp add: c3_def\<close>)
  have s3: "(if j - 1 \<ge> 0 then ScoutRegion_at i (j - 1) c2 else Inr c2) = Inr c3"
    using b k2 by (simp add: c3_def ScoutRegion_at_visit wf_in_range)
  define c4 where "c4 = (if i + 1 < ?n then visit (i + 1, j) c3 else c3)"
  have s4: "(if i + 1 < size_c (cave (snd c3)) then ScoutRegion_at (i + 1) j c3 else Inr c3) = Inr c4"
    using b k3 by (simp add: c4_def ScoutRegion_at_visit wf_in_range)
  have "scout_around i j c = Inr c4"
    unfolding scout_around_def by (simp only: s1 bind_def sum.case s2 s3 s4)
  moreover have "fold visit (around ?n i j) c = c4"
    by (simp add: around_def c4_def c3_def c2_def c1_def)
  ultimately show ?thesis by simp
qed

lemma visit_unfold:
  assumes "in_range (cave s) i j"
  shows "visit (i, j) (st, s) =
     (if IsAccessible (region_at (cave s) i j) \<and> IsUnknown (region_at (cave s) i j)
      then (push ((region_at (cave s) i j)\<lparr>discovered := True\<rparr>) st,
            s\<lparr>cave := store_at (cave s) i j ((region_at (cave s) i j)\<lparr>discovered := True\<rparr>)\<rparr>)
      else (st, s))"
proof -
  from ScoutRegion_at_visit [of "(st, s)" i j] assms
  have "ScoutRegion_at i j (st, s) = Inr (visit (i, j) (st, s))" by simp
  then show ?thesis by (cases rule: ScoutRegion_at_cases) auto
qed

text \<open>The region that is pushed for the cell at \<open>(i, j)\<close> of a map.\<close>

definition pushed_cell :: "Map \<Rightarrow> int \<Rightarrow> int \<Rightarrow> Region" where
  "pushed_cell c i j = (region_at c i j)\<lparr>discovered := True\<rparr>"

lemma pushed_cell_grows:
  assumes "grows c0 c" and "in_range c0 i j"
  shows "(region_at c i j)\<lparr>discovered := True\<rparr> = pushed_cell c0 i j"
proof -
  from assms(1) have "static c = static c0" by (simp add: grows_def)
  from static_region [OF this assms(2)] show ?thesis
    unfolding pushed_cell_def by (intro Region.equality) simp_all
qed

text \<open>
  The invariant of the loop, for a traversal that started on the map \<open>c0\<close>:
  the map has only grown; every region ever pushed is the marked copy of an accessible
  cell of the map; what was pushed is on the stack or was popped; a cell that the map
  shows as discovered was pushed and is a neighbour of a popped cell; every accessible
  cell of row 0 was pushed; and every push that did not come from row 0 took one cell
  out of the cells that can still be pushed.
\<close>

definition inv1 :: "Map \<Rightarrow> scout_stack \<times> Speleo \<Rightarrow> bool" where
  "inv1 c0 = (\<lambda>(st, s).
     wf_cave c0 \<and> grows c0 (cave s) \<and>
     (\<forall>r \<in> set (pushes st).
        in_range c0 (y r) (x r) \<and> r = pushed_cell c0 (y r) (x r) \<and> \<not> obstructed r) \<and>
     set (pushes st) = set (items st) \<union> set (pops st) \<and>
     (\<forall>i j. in_range c0 i j \<longrightarrow> discovered (region_at (cave s) i j) \<longrightarrow>
        pushed_cell c0 i j \<in> set (pushes st) \<and>
        (\<exists>p \<in> set (pops st). (i, j) \<in> set (around (size_c c0) (y p) (x p)))) \<and>
     (\<forall>j. in_range c0 0 j \<longrightarrow> \<not> obstructed (region_at c0 0 j) \<longrightarrow>
        pushed_cell c0 0 j \<in> set (pushes st)) \<and>
     length (pushes st) + unknown_count (cave s) \<le> nat (size_c c0) + unknown_count c0)"

lemma inv1_entries:
  assumes "inv1 c0 (st, s)" and "in_range c0 0 j" and "\<not> obstructed (region_at c0 0 j)"
  shows "pushed_cell c0 0 j \<in> set (pushes st)"
  using assms unfolding inv1_def by blast

lemma inv1_discovered:
  assumes "inv1 c0 (st, s)" and "in_range c0 i j" and "discovered (region_at (cave s) i j)"
  shows "pushed_cell c0 i j \<in> set (pushes st)"
    and "\<exists>p \<in> set (pops st). (i, j) \<in> set (around (size_c c0) (y p) (x p))"
  using assms unfolding inv1_def by blast+

lemma visit_inv1:
  assumes inv: "inv1 c0 (st, s)" and r0: "in_range c0 i j"
    and nb: "\<exists>p \<in> set (pops st). (i, j) \<in> set (around (size_c c0) (y p) (x p))"
  shows "inv1 c0 (visit (i, j) (st, s))"
    and "pops (fst (visit (i, j) (st, s))) = pops st"
    and "obstructed (region_at c0 i j) \<or> discovered (region_at (cave (snd (visit (i, j) (st, s)))) i j)"
proof -
  from inv have wf0: "wf_cave c0" and g: "grows c0 (cave s)" by (simp_all add: inv1_def)
  from g have stat: "static (cave s) = static c0" by (simp add: grows_def)
  from static_in_range [OF stat] r0 have r: "in_range (cave s) i j" by simp
  let ?r = "region_at (cave s) i j"
  let ?r' = "?r\<lparr>discovered := True\<rparr>"
  from pushed_cell_grows [OF g r0] have r': "?r' = pushed_cell c0 i j" .
  from static_region(3) [OF stat r0] have ob: "obstructed ?r = obstructed (region_at c0 i j)" .
  show "pops (fst (visit (i, j) (st, s))) = pops st"
    by (simp add: visit_unfold [OF r] push_def)
  show "obstructed (region_at c0 i j) \<or> discovered (region_at (cave (snd (visit (i, j) (st, s)))) i j)"
    using ob r by (auto simp: visit_unfold [OF r] IsAccessible_def IsUnknown_def
        region_at_store in_range_def)
  show "inv1 c0 (visit (i, j) (st, s))"
  proof (cases "IsAccessible ?r \<and> IsUnknown ?r")
    case False
    then have "visit (i, j) (st, s) = (st, s)" by (auto simp: visit_unfold [OF r])
    with inv show ?thesis by simp
  next
    case True
    let ?st' = "push ?r' st"
    let ?c' = "store_at (cave s) i j ?r'"
    from True have v: "visit (i, j) (st, s) = (?st', s\<lparr>cave := ?c'\<rparr>)"
      by (simp add: visit_unfold [OF r])
    from grows_store [OF r] have gs: "grows (cave s) ?c'" .
    from g gs have a: "grows c0 ?c'" by (rule grows_trans)
    from wf_coords [OF wf0 r0] have yx: "y (pushed_cell c0 i j) = i" "x (pushed_cell c0 i j) = j"
      by (simp_all add: pushed_cell_def)
    have b: "\<forall>r \<in> set (pushes ?st').
        in_range c0 (y r) (x r) \<and> r = pushed_cell c0 (y r) (x r) \<and> \<not> obstructed r"
    proof
      fix q assume "q \<in> set (pushes ?st')"
      then consider "q = pushed_cell c0 i j" | "q \<in> set (pushes st)"
        by (auto simp: push_def r')
      then show "in_range c0 (y q) (x q) \<and> q = pushed_cell c0 (y q) (x q) \<and> \<not> obstructed q"
      proof cases
        case 1
        with yx r0 True ob show ?thesis
          by (simp add: IsAccessible_def) (simp add: pushed_cell_def)
      next
        case 2
        with inv show ?thesis by (simp add: inv1_def)
      qed
    qed
    from inv have c: "set (pushes ?st') = set (items ?st') \<union> set (pops ?st')"
      by (auto simp: inv1_def push_def)
    have d: "pushed_cell c0 i' j' \<in> set (pushes ?st') \<and>
        (\<exists>p \<in> set (pops ?st'). (i', j') \<in> set (around (size_c c0) (y p) (x p)))"
      if ir: "in_range c0 i' j'" and dis: "discovered (region_at ?c' i' j')" for i' j'
    proof (cases "i' = i \<and> j' = j")
      case True
      with nb show ?thesis by (simp add: push_def r')
    next
      case False
      from ir have "0 \<le> i'" "0 \<le> j'" by (simp_all add: in_range_def)
      from region_at_store [OF r this, of ?r'] False dis
      have "discovered (region_at (cave s) i' j')" by auto
      with inv ir have "pushed_cell c0 i' j' \<in> set (pushes st) \<and>
          (\<exists>p \<in> set (pops st). (i', j') \<in> set (around (size_c c0) (y p) (x p)))"
        unfolding inv1_def by blast
      then show ?thesis by (simp add: push_def)
    qed
    from inv have "\<forall>j. in_range c0 0 j \<longrightarrow> \<not> obstructed (region_at c0 0 j) \<longrightarrow>
        pushed_cell c0 0 j \<in> set (pushes st)"
      unfolding inv1_def by blast
    then have e: "\<forall>j. in_range c0 0 j \<longrightarrow> \<not> obstructed (region_at c0 0 j) \<longrightarrow>
        pushed_cell c0 0 j \<in> set (pushes ?st')"
      by (simp add: push_def)
    from unknown_count_store [OF r, of ?r'] True
    have "unknown_count ?c' + 1 = unknown_count (cave s)"
      by (simp add: IsUnknown_def)
    with inv have f: "length (pushes ?st') + unknown_count ?c' \<le> nat (size_c c0) + unknown_count c0"
      by (simp add: inv1_def push_def)
    from wf0 a b c d e f show ?thesis
      unfolding v inv1_def by simp
  qed
qed

lemma around_in_range:
  assumes "wf_cave c0" and "in_range c0 i j" and "q \<in> set (around (size_c c0) i j)"
  shows "in_range c0 (fst q) (snd q)"
  using assms by (auto simp: around_def wf_in_range split: if_splits)

lemma fold_visit_inv1:
  assumes "inv1 c0 (st, s)"
    and "\<forall>q \<in> set qs. in_range c0 (fst q) (snd q) \<and>
           (\<exists>p \<in> set (pops st). q \<in> set (around (size_c c0) (y p) (x p)))"
  shows "inv1 c0 (fold visit qs (st, s)) \<and>
         pops (fst (fold visit qs (st, s))) = pops st \<and>
         successful_attempts (snd (fold visit qs (st, s))) = successful_attempts s \<and>
         frame s (snd (fold visit qs (st, s))) \<and>
         grows (cave s) (cave (snd (fold visit qs (st, s)))) \<and>
         (\<forall>q \<in> set qs. obstructed (region_at c0 (fst q) (snd q)) \<or>
            discovered (region_at (cave (snd (fold visit qs (st, s)))) (fst q) (snd q)))"
  using assms
proof (induction qs arbitrary: st s)
  case Nil
  then show ?case by (simp add: frame_refl grows_refl)
next
  case (Cons q qs)
  obtain i j where q: "q = (i, j)" by (cases q)
  obtain st1 s1 where v: "visit (i, j) (st, s) = (st1, s1)" by (cases "visit (i, j) (st, s)")
  from Cons.prems(2) q have r0: "in_range c0 i j"
    and nb: "\<exists>p \<in> set (pops st). (i, j) \<in> set (around (size_c c0) (y p) (x p))"
    by simp_all
  from visit_inv1 [OF Cons.prems(1) r0 nb] v
  have i1: "inv1 c0 (st1, s1)" and p1: "pops st1 = pops st"
    and d1: "obstructed (region_at c0 i j) \<or> discovered (region_at (cave s1) i j)"
    by simp_all
  from Cons.prems(1) have g0: "grows c0 (cave s)" by (simp add: inv1_def)
  then have "static (cave s) = static c0" by (simp add: grows_def)
  from static_in_range [OF this, of i j] r0
  have "in_range (cave (snd (st, s))) (fst q) (snd q)" by (simp add: q)
  from visit_keeps [OF this] v q
  have k1: "frame s s1" "grows (cave s) (cave s1)" "successful_attempts s1 = successful_attempts s"
    by simp_all
  from Cons.prems(2) p1
  have "\<forall>q \<in> set qs. in_range c0 (fst q) (snd q) \<and>
      (\<exists>p \<in> set (pops st1). q \<in> set (around (size_c c0) (y p) (x p)))"
    by simp
  from Cons.IH [OF i1 this]
  have ih: "inv1 c0 (fold visit qs (st1, s1))"
    "pops (fst (fold visit qs (st1, s1))) = pops st1"
    "successful_attempts (snd (fold visit qs (st1, s1))) = successful_attempts s1"
    "frame s1 (snd (fold visit qs (st1, s1)))"
    "grows (cave s1) (cave (snd (fold visit qs (st1, s1))))"
    "\<forall>q \<in> set qs. obstructed (region_at c0 (fst q) (snd q)) \<or>
        discovered (region_at (cave (snd (fold visit qs (st1, s1)))) (fst q) (snd q))"
    by simp_all
  from g0 k1(2) have "grows c0 (cave s1)" by (rule grows_trans)
  then have "static (cave s1) = static c0" by (simp add: grows_def)
  from static_in_range [OF this, of i j] r0 have "in_range (cave s1) i j" by simp
  with ih(5) d1
  have "obstructed (region_at c0 i j) \<or>
      discovered (region_at (cave (snd (fold visit qs (st1, s1)))) i j)"
    by (auto simp: grows_def)
  moreover from k1(1) ih(4) have "frame s (snd (fold visit qs (st1, s1)))"
    by (rule frame_trans)
  moreover from k1(2) ih(5) have "grows (cave s) (cave (snd (fold visit qs (st1, s1))))"
    by (rule grows_trans)
  ultimately show ?case
    using ih(1,2,3,6) k1(3) p1 by (simp add: v q)
qed

text \<open>
  The invariant at the head of the loop, for a traversal that started with
  \<open>successful_attempts = k0\<close>: moreover every neighbour of a popped cell is obstructed or
  discovered; in mode A the counter has counted the popped cells of the bottom row, in
  the other modes it is unchanged and no cell of the bottom row was popped.
\<close>

definition closed_pops :: "Map \<Rightarrow> scout_stack \<times> Speleo \<Rightarrow> bool" where
  "closed_pops c0 = (\<lambda>(st, s).
     \<forall>p \<in> set (pops st). \<forall>q \<in> set (around (size_c c0) (y p) (x p)).
        obstructed (region_at c0 (fst q) (snd q)) \<or>
        discovered (region_at (cave s) (fst q) (snd q)))"

definition bottom_pops :: "Map \<Rightarrow> scout_stack \<Rightarrow> int" where
  "bottom_pops c0 st = int (length (filter (\<lambda>p. y p + 1 = size_c c0) (pops st)))"

definition inv :: "Map \<Rightarrow> int \<Rightarrow> scout_stack \<times> Speleo \<Rightarrow> bool" where
  "inv c0 k0 = (\<lambda>(st, s).
     inv1 c0 (st, s) \<and> closed_pops c0 (st, s) \<and>
     (if exec_mode s = A
      then successful_attempts s = k0 + bottom_pops c0 st
      else successful_attempts s = k0 \<and> bottom_pops c0 st = 0))"

definition post :: "Map \<Rightarrow> int \<Rightarrow> scout_stack \<times> Speleo \<Rightarrow> bool" where
  "post c0 k0 = (\<lambda>(st, s).
     inv1 c0 (st, s) \<and> closed_pops c0 (st, s) \<and>
     (if exec_mode s = A
      then items st = [] \<and> successful_attempts s = k0 + bottom_pops c0 st
      else bottom_pops c0 st = 0 \<and>
           (items st = [] \<and> successful_attempts s = k0 \<or>
            items st \<noteq> [] \<and> y (top_stack st) + 1 = size_c c0 \<and>
            successful_attempts s = k0 + 1)))"

lemma inv1_successful_attempts [simp]:
  "inv1 c0 (st, s\<lparr>successful_attempts := k\<rparr>) = inv1 c0 (st, s)"
  by (simp add: inv1_def)

lemma closed_pops_successful_attempts [simp]:
  "closed_pops c0 (st, s\<lparr>successful_attempts := k\<rparr>) = closed_pops c0 (st, s)"
  by (simp add: closed_pops_def)

lemma inv1_top:
  assumes "inv1 c0 (st, s)" and "items st \<noteq> []"
  shows "in_range c0 (y (top_stack st)) (x (top_stack st))"
    and "in_range (cave s) (y (top_stack st)) (x (top_stack st))"
    and "size_c (cave s) = size_c c0" and "wf_cave (cave s)"
proof -
  from assms(2) have "top_stack st \<in> set (items st)" by (simp add: top_stack_def)
  with assms(1) have "top_stack st \<in> set (pushes st)" by (simp add: inv1_def)
  with assms(1) show r0: "in_range c0 (y (top_stack st)) (x (top_stack st))"
    unfolding inv1_def by blast
  from assms(1) have g: "grows c0 (cave s)" and wf0: "wf_cave c0" by (simp_all add: inv1_def)
  from g have "static (cave s) = static c0" by (simp add: grows_def)
  from static_in_range [OF this] r0
  show "in_range (cave s) (y (top_stack st)) (x (top_stack st))" by simp
  from g show "size_c (cave s) = size_c c0" by (simp add: grows_def)
  from wf0 g show "wf_cave (cave s)" by (rule wf_grows)
qed

lemma inv1_pop:
  assumes "inv1 c0 (st, s)" and "items st \<noteq> []"
  shows "inv1 c0 (pop st, s)"
proof -
  from assms(2) obtain t rest where it: "items st = t # rest" by (cases "items st") auto
  then have p: "pops (pop st) = t # pops st" "items (pop st) = rest" "pushes (pop st) = pushes st"
    by (simp_all add: pop_def)
  from assms(1) it have "set (pushes st) = set (items (pop st)) \<union> set (pops (pop st))"
    by (auto simp: inv1_def p)
  moreover have "pushed_cell c0 i j \<in> set (pushes st) \<and>
      (\<exists>p \<in> set (pops (pop st)). (i, j) \<in> set (around (size_c c0) (y p) (x p)))"
    if "in_range c0 i j" "discovered (region_at (cave s) i j)" for i j
  proof -
    from assms(1) that have "pushed_cell c0 i j \<in> set (pushes st) \<and>
      (\<exists>p \<in> set (pops st). (i, j) \<in> set (around (size_c c0) (y p) (x p)))"
      unfolding inv1_def by blast
    then show ?thesis by (auto simp: p)
  qed
  moreover from assms(1) have "wf_cave c0" "grows c0 (cave s)"
    "\<forall>r \<in> set (pushes st).
        in_range c0 (y r) (x r) \<and> r = pushed_cell c0 (y r) (x r) \<and> \<not> obstructed r"
    "\<forall>j. in_range c0 0 j \<longrightarrow> \<not> obstructed (region_at c0 0 j) \<longrightarrow>
        pushed_cell c0 0 j \<in> set (pushes st)"
    "length (pushes st) + unknown_count (cave s) \<le> nat (size_c c0) + unknown_count c0"
    unfolding inv1_def by blast+
  ultimately show ?thesis
    unfolding inv1_def by (simp add: p(3))
qed

lemma inv1_pushes_in_range:
  assumes "inv1 c0 (st, s)" and "p \<in> set (pops st)"
  shows "in_range c0 (y p) (x p)"
proof -
  from assms have "p \<in> set (pushes st)" by (simp add: inv1_def)
  with assms(1) show ?thesis unfolding inv1_def by blast
qed

lemma explore_body_inv:
  assumes "inv c0 k0 (st, s)" and ne: "items st \<noteq> []"
  shows "(\<exists>c1. explore_body (st, s) = Inr (Continue c1) \<and> inv c0 k0 c1) \<or>
         (\<exists>c1. explore_body (st, s) = Inr (Break c1) \<and> post c0 k0 c1)"
proof -
  let ?t = "top_stack st"
  let ?n = "size_c c0"
  from assms(1) have i1: "inv1 c0 (st, s)" and cl: "closed_pops c0 (st, s)"
    and md: "if exec_mode s = A then successful_attempts s = k0 + bottom_pops c0 st
             else successful_attempts s = k0 \<and> bottom_pops c0 st = 0"
    by (simp_all add: inv_def)
  from i1 have wf0: "wf_cave c0" by (simp add: inv1_def)
  note tp = inv1_top [OF i1 ne]
  show ?thesis
  proof (cases "y ?t + 1 = ?n \<and> exec_mode s \<noteq> A")
    case True
    with tp(3) have "explore_body (st, s) =
        Inr (Break (st, s\<lparr>successful_attempts := successful_attempts s + 1\<rparr>))"
      by (simp add: explore_body_def Let_def)
    moreover from True i1 cl md ne
    have "post c0 k0 (st, s\<lparr>successful_attempts := successful_attempts s + 1\<rparr>)"
      by (simp add: post_def)
    ultimately show ?thesis by blast
  next
    case False
    define h :: int where "h = (if y ?t + 1 = ?n then 1 else 0)"
    define s1 where "s1 = (if y ?t + 1 = ?n
      then s\<lparr>successful_attempts := successful_attempts s + 1\<rparr> else s)"
    have s1: "cave s1 = cave s" "exec_mode s1 = exec_mode s"
      "successful_attempts s1 = successful_attempts s + h"
      by (simp_all add: s1_def h_def)
    from i1 have i1': "inv1 c0 (st, s1)" by (simp add: s1_def)
    from inv1_pop [OF i1' ne] have ip: "inv1 c0 (pop st, s1)" .
    from ne have pp: "pops (pop st) = ?t # pops st"
      by (cases "items st") (simp_all add: pop_def top_stack_def)
    define c2 where "c2 = fold visit (around ?n (y ?t) (x ?t)) (pop st, s1)"
    obtain st2 s2 where c2: "c2 = (st2, s2)" by (cases c2)
    from tp s1 have "wf_cave (cave (snd (pop st, s1)))"
      "in_range (cave (snd (pop st, s1))) (y ?t) (x ?t)"
      "size_c (cave (snd (pop st, s1))) = ?n"
      by simp_all
    from scout_around_fold [OF this(1,2)] this(3)
    have sa: "scout_around (y ?t) (x ?t) (pop st, s1) = Inr c2" by (simp add: c2_def)
    from False tp(3) sa have eb: "explore_body (st, s) = Inr (Continue c2)"
      by (auto simp: explore_body_def Let_def s1_def bind_def)
    have "\<forall>q \<in> set (around ?n (y ?t) (x ?t)). in_range c0 (fst q) (snd q) \<and>
        (\<exists>p \<in> set (pops (pop st)). q \<in> set (around ?n (y p) (x p)))"
      using around_in_range [OF wf0 tp(1)] by (auto simp: pp)
    from fold_visit_inv1 [OF ip this] c2
    have f: "inv1 c0 (st2, s2)" "pops st2 = ?t # pops st"
      "successful_attempts s2 = successful_attempts s + h" "frame s1 s2"
      "grows (cave s) (cave s2)"
      "\<forall>q \<in> set (around ?n (y ?t) (x ?t)). obstructed (region_at c0 (fst q) (snd q)) \<or>
          discovered (region_at (cave s2) (fst q) (snd q))"
      by (simp_all add: c2_def [symmetric] pp s1)
    from i1 have g0: "grows c0 (cave s)" by (simp add: inv1_def)
    have "closed_pops c0 (st2, s2)"
      unfolding closed_pops_def prod.case
    proof (intro ballI)
      fix p q
      assume "p \<in> set (pops st2)" and q: "q \<in> set (around ?n (y p) (x p))"
      then have p: "p = ?t \<or> p \<in> set (pops st)" by (simp add: f(2))
      show "obstructed (region_at c0 (fst q) (snd q)) \<or>
          discovered (region_at (cave s2) (fst q) (snd q))"
      proof (cases "p = ?t")
        case True
        with f(6) q show ?thesis by blast
      next
        case False
        with p have pin: "p \<in> set (pops st)" by simp
        from inv1_pushes_in_range [OF i1 pin] have "in_range c0 (y p) (x p)" .
        from around_in_range [OF wf0 this q] have r0: "in_range c0 (fst q) (snd q)" .
        from g0 have "static (cave s) = static c0" by (simp add: grows_def)
        from static_in_range [OF this, of "fst q" "snd q"] r0
        have r: "in_range (cave s) (fst q) (snd q)" by simp
        from cl pin q have "obstructed (region_at c0 (fst q) (snd q)) \<or>
            discovered (region_at (cave s) (fst q) (snd q))"
          unfolding closed_pops_def by blast
        with f(5) r show ?thesis by (auto simp: grows_def)
      qed
    qed
    moreover have "bottom_pops c0 st2 = bottom_pops c0 st + h"
      by (simp add: bottom_pops_def f(2) h_def)
    moreover from f(4) s1 have "exec_mode s2 = exec_mode s" by (simp add: frame_def)
    moreover from False have "exec_mode s \<noteq> A \<Longrightarrow> h = 0" by (simp add: h_def)
    ultimately have "inv c0 k0 (st2, s2)"
      using f(1,3) md by (auto simp: inv_def)
    with eb c2 show ?thesis by blast
  qed
qed

lemma explore_total:
  assumes "P c"
    and step: "\<And>c. P c \<Longrightarrow> \<not> empty_stack (fst c) \<Longrightarrow>
        (\<exists>c1. explore_body c = Inr (Continue c1) \<and> P c1) \<or>
        (\<exists>c1. explore_body c = Inr (Break c1) \<and> Q c1)"
    and fin: "\<And>c. P c \<Longrightarrow> empty_stack (fst c) \<Longrightarrow> Q c"
  shows "\<exists>c'. explore c = Inr c' \<and> Q c'"
  using assms(1)
proof (induction c rule: explore.induct)
  case (1 c)
  show ?case
  proof (cases "empty_stack (fst c)")
    case True
    with fin [OF "1.prems"] show ?thesis by (simp add: explore.simps [of c])
  next
    case False
    from step [OF "1.prems" False] show ?thesis
    proof (elim disjE exE conjE)
      fix c1 assume b: "explore_body c = Inr (Continue c1)" and p: "P c1"
      from "1.IH" [OF False b refl p] False b show ?thesis
        by (simp add: explore.simps [of c])
    next
      fix c1 assume "explore_body c = Inr (Break c1)" and "Q c1"
      with False show ?thesis by (simp add: explore.simps [of c])
    qed
  qed
qed

lemma find_entries_eq:
  "find_entries row st =
     st\<lparr>items := rev (map (\<lambda>r. r\<lparr>discovered := True\<rparr>)
                    (filter (\<lambda>r. IsAccessible r \<and> IsUnknown r) row)) @ items st,
        pushes := rev (map (\<lambda>r. r\<lparr>discovered := True\<rparr>)
                    (filter (\<lambda>r. IsAccessible r \<and> IsUnknown r) row)) @ pushes st\<rparr>"
  by (induction row arbitrary: st) (simp_all add: ScoutRegion_def Let_def push_def)

lemma fresh_region:
  assumes "fresh c" and "in_range c i j"
  shows "\<not> discovered (region_at c i j)"
proof -
  from assms(2) have "nat i < length (map_c c)" "nat j < length (map_c c ! nat i)"
    by (auto simp: in_range_def)
  then have "map_c c ! nat i \<in> set (map_c c)" "region_at c i j \<in> set (map_c c ! nat i)"
    by (simp_all add: region_at_def)
  with assms(1) show ?thesis
    by (auto simp: fresh_def list_all_iff IsUnknown_def)
qed

lemma find_entries_inv:
  assumes wf: "wf_cave (cave s)" and fr: "fresh (cave s)"
  shows "inv (cave s) (successful_attempts s)
           (find_entries (map_c (cave s) ! nat ENTRY) new_stack, s)"
proof -
  let ?c = "cave s"
  let ?row = "map_c ?c ! 0"
  let ?P = "\<lambda>r. IsAccessible r \<and> IsUnknown r"
  let ?es = "rev (map (\<lambda>r. r\<lparr>discovered := True\<rparr>) (filter ?P ?row))"
  define st where "st = find_entries ?row new_stack"
  have st: "items st = ?es" "pushes st = ?es" "pops st = []"
    by (simp_all add: st_def find_entries_eq new_stack_def)
  from wf have n: "1 \<le> size_c ?c" by (simp add: wf_cave_def)
  from wf_cave_lengths(2) [OF wf, of 0] n have len: "length ?row = nat (size_c ?c)" by simp
  have cell: "?row ! k = region_at ?c 0 (int k)" for k by (simp add: region_at_def)
  have rng: "in_range ?c 0 (int k)" if "k < length ?row" for k
    using that n len by (simp add: wf_in_range [OF wf])
  have b: "\<forall>r \<in> set (pushes st).
      in_range ?c (y r) (x r) \<and> r = pushed_cell ?c (y r) (x r) \<and> \<not> obstructed r"
  proof
    fix r assume "r \<in> set (pushes st)"
    then obtain r1 where r1: "r1 \<in> set ?row" "?P r1" "r = r1\<lparr>discovered := True\<rparr>"
      by (auto simp: st)
    from r1(1) obtain k where k: "k < length ?row" "r1 = ?row ! k"
      by (auto simp: in_set_conv_nth)
    from wf_coords [OF wf rng [OF k(1)]] k(2) have "y r1 = 0" "x r1 = int k"
      by (simp_all add: cell)
    with r1 k rng [OF k(1)]
    show "in_range ?c (y r) (x r) \<and> r = pushed_cell ?c (y r) (x r) \<and> \<not> obstructed r"
      by (simp add: pushed_cell_def cell IsAccessible_def)
  qed
  have e: "pushed_cell ?c 0 j \<in> set (pushes st)"
    if r: "in_range ?c 0 j" and a: "\<not> obstructed (region_at ?c 0 j)" for j
  proof -
    from r have "nat j < length ?row" by (auto simp: in_range_def)
    then have "region_at ?c 0 j \<in> set ?row" by (simp add: region_at_def)
    moreover from fresh_region [OF fr r] a have "?P (region_at ?c 0 j)"
      by (simp add: IsAccessible_def IsUnknown_def)
    ultimately show ?thesis by (auto simp: st pushed_cell_def)
  qed
  have "length (pushes st) \<le> length ?row" by (simp add: st)
  with len have f: "length (pushes st) + unknown_count ?c \<le> nat (size_c ?c) + unknown_count ?c"
    by simp
  have d: "\<forall>i j. in_range ?c i j \<longrightarrow> discovered (region_at ?c i j) \<longrightarrow>
      pushed_cell ?c i j \<in> set (pushes st) \<and>
      (\<exists>p \<in> set (pops st). (i, j) \<in> set (around (size_c ?c) (y p) (x p)))"
    using fresh_region [OF fr] by blast
  have c: "set (pushes st) = set (items st) \<union> set (pops st)" by (simp add: st)
  from wf b c d e f have "inv1 ?c (st, s)"
    unfolding inv1_def prod.case by (intro conjI grows_refl) blast+
  then have "inv ?c (successful_attempts s) (st, s)"
    by (simp add: inv_def closed_pops_def bottom_pops_def st)
  then show ?thesis by (simp add: st_def ENTRY_def)
qed

lemma inv_post:
  assumes "inv c0 k0 c" and "empty_stack (fst c)"
  shows "post c0 k0 c"
  using assms by (cases c) (auto simp: inv_def post_def empty_stack_def)

lemma traverse_post:
  assumes wf: "wf_cave (cave s)" and fr: "fresh (cave s)"
  shows "\<exists>st' s'. traverse s = Inr (st', s') \<and> post (cave s) (successful_attempts s) (st', s')"
proof -
  let ?P = "inv (cave s) (successful_attempts s)"
  let ?Q = "post (cave s) (successful_attempts s)"
  let ?c = "(find_entries (map_c (cave s) ! nat ENTRY) new_stack, s)"
  have "\<exists>c'. explore ?c = Inr c' \<and> ?Q c'"
  proof (rule explore_total [where P = ?P])
    show "?P ?c" by (rule find_entries_inv [OF wf fr])
  next
    fix c assume "?P c" "\<not> empty_stack (fst c)"
    then show "(\<exists>c1. explore_body c = Inr (Continue c1) \<and> ?P c1) \<or>
        (\<exists>c1. explore_body c = Inr (Break c1) \<and> ?Q c1)"
      using explore_body_inv [of "cave s" "successful_attempts s" "fst c" "snd c"]
      by (simp add: empty_stack_def)
  next
    fix c assume "?P c" "empty_stack (fst c)"
    then show "?Q c" by (rule inv_post)
  qed
  moreover from wf wf_cave_lengths(1) [OF wf] have "0 < length (map_c (cave s))"
    by (simp add: wf_cave_def)
  ultimately show ?thesis by (auto simp: traverse_def ENTRY_def)
qed

lemma sum_list_bounded:
  fixes f :: "'a \<Rightarrow> nat"
  assumes "\<forall>v \<in> set xs. f v \<le> n"
  shows "sum_list (map f xs) \<le> length xs * n"
  using assms by (induction xs) auto

lemma unknown_count_le:
  assumes "wf_cave c"
  shows "unknown_count c \<le> nat (size_c c) * nat (size_c c)"
proof -
  let ?n = "nat (size_c c)"
  have "length (filter (\<lambda>r. IsAccessible r \<and> IsUnknown r) row) \<le> ?n" if "row \<in> set (map_c c)" for row
  proof -
    from that obtain i where "i < length (map_c c)" "row = map_c c ! i"
      by (auto simp: in_set_conv_nth)
    with wf_cave_lengths [OF assms] have "length row = ?n" by simp
    moreover have "length (filter (\<lambda>r. IsAccessible r \<and> IsUnknown r) row) \<le> length row"
      by (rule length_filter_le)
    ultimately show ?thesis by simp
  qed
  then have "unknown_count c \<le> length (map_c c) * ?n"
    unfolding unknown_count_def by (intro sum_list_bounded) blast
  with wf_cave_lengths(1) [OF assms] show ?thesis by simp
qed

text \<open>
  The cells that can be reached from the accessible cells of row 0 through accessible
  cells, each step going to one of the four neighbours inside the map.
\<close>

inductive reachable :: "Map \<Rightarrow> int \<times> int \<Rightarrow> bool" for c where
  entry: "in_range c 0 j \<Longrightarrow> \<not> obstructed (region_at c 0 j) \<Longrightarrow> reachable c (0, j)"
| step: "reachable c (i, j) \<Longrightarrow> in_range c i' j' \<Longrightarrow> \<bar>i' - i\<bar> + \<bar>j' - j\<bar> = 1 \<Longrightarrow>
         \<not> obstructed (region_at c i' j') \<Longrightarrow> reachable c (i', j')"

lemma around_iff:
  assumes "wf_cave c" and "in_range c i j"
  shows "(i', j') \<in> set (around (size_c c) i j) \<longleftrightarrow>
         in_range c i' j' \<and> \<bar>i' - i\<bar> + \<bar>j' - j\<bar> = 1"
  using assms by (auto simp: around_def wf_in_range)

lemma post_reachable_pushed:
  assumes p: "post c0 k0 (st, s)" and e: "items st = []" and r: "reachable c0 (i, j)"
  shows "in_range c0 i j \<and> pushed_cell c0 i j \<in> set (pushes st)"
  using r
proof (induction "(i, j)" arbitrary: i j rule: reachable.induct)
  case (entry j)
  from p have "inv1 c0 (st, s)" by (simp add: post_def)
  from inv1_entries [OF this entry] entry(1) show ?case by simp
next
  case (step i j i' j')
  from p have i1: "inv1 c0 (st, s)" and cl: "closed_pops c0 (st, s)" by (simp_all add: post_def)
  from i1 have wf0: "wf_cave c0" by (simp add: inv1_def)
  from step.hyps(2) have r0: "in_range c0 i j" and pu: "pushed_cell c0 i j \<in> set (pushes st)"
    by simp_all
  from i1 e pu have po: "pushed_cell c0 i j \<in> set (pops st)" by (simp add: inv1_def)
  from wf_coords [OF wf0 r0] have yx: "y (pushed_cell c0 i j) = i" "x (pushed_cell c0 i j) = j"
    by (simp_all add: pushed_cell_def)
  from around_iff [OF wf0 r0, of i' j'] step.hyps(3,4)
  have "(i', j') \<in> set (around (size_c c0) (y (pushed_cell c0 i j)) (x (pushed_cell c0 i j)))"
    by (simp add: yx)
  with cl po have "obstructed (region_at c0 i' j') \<or> discovered (region_at (cave s) i' j')"
    unfolding closed_pops_def by fastforce
  with step.hyps(5) have "discovered (region_at (cave s) i' j')" by simp
  from inv1_discovered(1) [OF i1 step.hyps(3) this] step.hyps(3) show ?case by simp
qed

text \<open>
  The object as the constructor leaves it: the mode, the size, the sample size and the
  accessibility that the user typed, the map (its rows as \<open>ReadMapFromConsole\<close> built
  them in mode A, no row in the other modes), and the random engine. The constructor
  does not initialise \<open>successful_attempts\<close>; \<open>Run\<close> does.
\<close>

definition Speleo_new :: "mode \<Rightarrow> int \<Rightarrow> int \<Rightarrow> double \<Rightarrow> Region list list \<Rightarrow> (nat \<Rightarrow> rat) \<Rightarrow> Speleo" where
  "Speleo_new m n S p rows g =
     \<lparr>exec_mode = m, sample_size = S, accessibility = p,
      cave = \<lparr>map_c = rows, size_c = n\<rparr>,
      successful_attempts = 0, reng = g, drawn = 0, console = []\<rparr>"

text \<open>Mode A, size 1, the user types \<^verbatim>\<open>0\<close>; mode A, size 2, the user types \<^verbatim>\<open>0 0 0 0\<close>.\<close>

definition open_1 :: Speleo where
  "open_1 = Speleo_new A 1 1 0 [[Region_new 0 0 False]] (\<lambda>k. 0)"

definition open_2 :: Speleo where
  "open_2 = Speleo_new A 2 1 0
     [[Region_new 0 0 False, Region_new 0 1 False],
      [Region_new 1 0 False, Region_new 1 1 False]] (\<lambda>k. 0)"

lemmas traverse_eval =
  traverse_def explore.simps explore_body_def scout_around_def ScoutRegion_at_def
  ScoutRegion_def bind_def ENTRY_def new_stack_def empty_stack_def top_stack_def push_def
  pop_def in_range_def region_at_def store_at_def IsAccessible_def IsUnknown_def
  Region_new_def Let_def Speleo_new_def

lemma traverse_open_1:
  "traverse open_1 =
     Inr (\<lparr>items = [], pushes = [\<lparr>y = 0, x = 0, obstructed = False, discovered = True\<rparr>],
           pops = [\<lparr>y = 0, x = 0, obstructed = False, discovered = True\<rparr>]\<rparr>,
          open_1\<lparr>successful_attempts := 1\<rparr>)"
  by (simp add: open_1_def traverse_eval)

lemma traverse_open_2:
  "traverse open_2 =
     Inr (\<lparr>items = [],
           pushes = map (\<lambda>(i, j). \<lparr>y = i, x = j, obstructed = False, discovered = True\<rparr>)
             [(1, 0), (0, 1), (1, 1), (0, 0), (0, 1), (0, 0)],
           pops = map (\<lambda>(i, j). \<lparr>y = i, x = j, obstructed = False, discovered = True\<rparr>)
             [(0, 0), (0, 0), (0, 1), (1, 0), (1, 1), (0, 1)]\<rparr>,
          open_2\<lparr>successful_attempts := 2,
            cave := \<lparr>map_c = map (map (\<lambda>(i, j). \<lparr>y = i, x = j, obstructed = False, discovered = True\<rparr>))
              [[(0, 0), (0, 1)], [(1, 0), (1, 1)]], size_c = 2\<rparr>\<rparr>)"
  by (simp add: open_2_def traverse_eval)

subsection \<open>Claims settled by evaluation and by the frame of the traversal\<close>

text \<open>
  C9. The traversal never changes the \<open>obstructed\<close> flag (nor the coordinates) of a cell
  of the map, and a cell that is discovered stays discovered: this holds for the region
  that \<open>ScoutRegion\<close> is given, and for every cell of the map over a whole run of
  \<open>AttemptCaveTraverse\<close>.
\<close>

theorem C9_obstructed_fixed_discovered_monotone:
  "obstructed (fst (ScoutRegion r st)) = obstructed r \<and>
   (discovered r \<longrightarrow> discovered (fst (ScoutRegion r st))) \<and>
   (traverse s = Inr (st', s') \<longrightarrow> in_range (cave s) i j \<longrightarrow>
      in_range (cave s') i j \<and>
      obstructed (region_at (cave s') i j) = obstructed (region_at (cave s) i j) \<and>
      y (region_at (cave s') i j) = y (region_at (cave s) i j) \<and>
      x (region_at (cave s') i j) = x (region_at (cave s) i j) \<and>
      (discovered (region_at (cave s) i j) \<longrightarrow> discovered (region_at (cave s') i j)))"
proof -
  have 1: "obstructed (fst (ScoutRegion r st)) = obstructed r"
    by (simp add: ScoutRegion_def Let_def)
  have 2: "discovered r \<longrightarrow> discovered (fst (ScoutRegion r st))"
    by (simp add: ScoutRegion_def Let_def)
  have 3: "in_range (cave s') i j \<and>
      obstructed (region_at (cave s') i j) = obstructed (region_at (cave s) i j) \<and>
      y (region_at (cave s') i j) = y (region_at (cave s) i j) \<and>
      x (region_at (cave s') i j) = x (region_at (cave s) i j) \<and>
      (discovered (region_at (cave s) i j) \<longrightarrow> discovered (region_at (cave s') i j))"
    if t: "traverse s = Inr (st', s')" and r: "in_range (cave s) i j"
  proof -
    from t have g: "grows (cave s) (cave s')" by (rule traverse_keeps)
    then have st: "static (cave s') = static (cave s)" by (simp add: grows_def)
    from static_in_range [OF st, of i j] r have "in_range (cave s') i j" by simp
    moreover note static_region [OF st r]
    moreover from g r have "discovered (region_at (cave s) i j) \<longrightarrow> discovered (region_at (cave s') i j)"
      by (simp add: grows_def)
    ultimately show ?thesis by simp
  qed
  from 1 2 3 show ?thesis by blast
qed


theorem C9_witness:
  "obstructed (fst (ScoutRegion (Region_new 0 0 False) new_stack)) = False \<and>
   (\<exists>st' s'. traverse open_2 = Inr (st', s') \<and> in_range (cave open_2) 1 1 \<and>
      \<not> discovered (region_at (cave open_2) 1 1) \<and>
      in_range (cave s') 1 1 \<and> \<not> obstructed (region_at (cave s') 1 1) \<and>
      y (region_at (cave s') 1 1) = 1 \<and> x (region_at (cave s') 1 1) = 1 \<and>
      discovered (region_at (cave s') 1 1))"
proof -
  obtain st' s' where t: "traverse open_2 = Inr (st', s')"
    and d: "discovered (region_at (cave s') 1 1)"
    using traverse_open_2 by (simp add: region_at_def)
  have r: "in_range (cave open_2) 1 1"
    and o: "\<not> obstructed (region_at (cave open_2) 1 1)"
    and yx: "y (region_at (cave open_2) 1 1) = 1" "x (region_at (cave open_2) 1 1) = 1"
    and u: "\<not> discovered (region_at (cave open_2) 1 1)"
    by (simp_all add: open_2_def Speleo_new_def in_range_def region_at_def Region_new_def)
  from C9_obstructed_fixed_discovered_monotone
    [of "Region_new 0 0 False" new_stack open_2 st' s' 1 1] t r o yx
  have "obstructed (fst (ScoutRegion (Region_new 0 0 False) new_stack)) = False"
    and "in_range (cave s') 1 1 \<and> \<not> obstructed (region_at (cave s') 1 1) \<and>
      y (region_at (cave s') 1 1) = 1 \<and> x (region_at (cave s') 1 1) = 1"
    by (simp_all add: Region_new_def)
  with t r u d show ?thesis by blast
qed

text \<open>
  C1. No cell is pushed onto the exploration stack more than once, the cells of row 0
  included. The code breaks this: on the open map of size 2 in mode A the six pushes of
  a traversal are of four cells, \<open>(0, 0)\<close> and \<open>(0, 1)\<close> being pushed twice each, once as
  entries (the copies that the loop over \<^verbatim>\<open>cave[ENTRY]\<close> marks) and once as neighbours.
\<close>

theorem C1_entry_cells_pushed_twice:
  "\<exists>st' s'. traverse open_2 = Inr (st', s') \<and>
     map (\<lambda>r. (y r, x r)) (pushes st') = [(1, 0), (0, 1), (1, 1), (0, 0), (0, 1), (0, 0)] \<and>
     count_list (map (\<lambda>r. (y r, x r)) (pushes st')) (0, 0) = 2 \<and>
     \<not> distinct (pushes st')"
  by (simp add: traverse_open_2)

text \<open>
  C2. In mode A on a map without obstructed cells the program reports that the exit was
  found and leaves every cell discovered. The code breaks this for size 1: the exit is
  found, and the only cell is printed as never discovered (\<open>True\<close> is the \<^verbatim>\<open>1\<close> that
  \<open>DisplayPaths\<close> prints for \<^verbatim>\<open>!region.discovered\<close>).
\<close>

theorem C2_single_open_cell_left_undiscovered:
  "\<exists>s'. Run_A open_1 = Inr s' \<and> console s' = [ExitFound, Paths [[True]]] \<and>
     \<not> discovered (region_at (cave s') 0 0)"
proof -
  have "open_1\<lparr>successful_attempts := 0\<rparr> = open_1"
    by (simp add: open_1_def Speleo_new_def)
  then have "AttemptCaveTraverse (open_1\<lparr>successful_attempts := 0\<rparr>) =
      Inr (open_1\<lparr>successful_attempts := 1\<rparr>)"
    by (simp add: AttemptCaveTraverse_def traverse_open_1 bind_def)
  then show ?thesis
    by (simp add: Run_A_def DisplayPaths_def region_at_def open_1_def Speleo_new_def
        Region_new_def)
qed


subsection \<open>What \<open>GenerateMap\<close> builds\<close>

lemma GenerateStrip_eq:
  assumes "0 \<le> j" and "drawn s = d0 + nat j"
  shows "GenerateStrip i j strip s =
     (strip @ map (\<lambda>k. Region_new i (int k) (reng s (d0 + k) < dsub 1 (accessibility s)))
                [nat j..<nat (size_c (cave s))],
      s\<lparr>drawn := d0 + max (nat j) (nat (size_c (cave s)))\<rparr>)"
  using assms
proof (induction i j strip s rule: GenerateStrip.induct)
  case (1 i j strip s)
  let ?n = "nat (size_c (cave s))"
  let ?cell = "\<lambda>k. Region_new i (int k) (reng s (d0 + k) < dsub 1 (accessibility s))"
  show ?case
  proof (cases "j < size_c (cave s)")
    case False
    with "1.prems" have "[nat j..<?n] = []" "max (nat j) ?n = nat j" by simp_all
    with False "1.prems" show ?thesis
      by (simp add: GenerateStrip.simps [of i j strip s])
  next
    case True
    define s1 where "s1 = s\<lparr>drawn := Suc (drawn s)\<rparr>"
    define ob where "ob = (reng s (drawn s) < dsub 1 (accessibility s))"
    have b: "Bernouilli (dsub 1 (accessibility s)) s = (ob, s1)"
      by (simp add: Bernouilli_def ob_def s1_def)
    from "1.prems" have d1: "drawn s1 = d0 + nat (j + 1)" by (simp add: s1_def nat_add_distrib)
    from "1.prems" have j1: "0 \<le> j + 1" by simp
    from "1.IH" [OF True b [symmetric] j1 d1]
    have ih: "GenerateStrip i (j + 1) (strip @ [Region_new i j ob]) s1 =
        ((strip @ [Region_new i j ob]) @ map ?cell [nat (j + 1)..<?n],
         s\<lparr>drawn := d0 + max (nat (j + 1)) ?n\<rparr>)"
      by (simp add: s1_def)
    from True "1.prems" have lt: "nat j < ?n" by simp
    then have u: "[nat j..<?n] = nat j # [nat (j + 1)..<?n]"
      using "1.prems"(1) by (simp add: upt_conv_Cons nat_add_distrib)
    from True "1.prems"(1) have mx: "max (nat (j + 1)) ?n = max (nat j) ?n"
      by (simp add: max_def)
    from "1.prems" have c: "?cell (nat j) = Region_new i j ob" by (simp add: ob_def)
    from True b ih "1.prems" show ?thesis
      by (simp add: GenerateStrip.simps [of i j strip s] u mx ob_def)
  qed
qed

lemma GenerateRows_eq:
  assumes "0 \<le> i" and "drawn s = d0 + nat i * nat (size_c (cave s))"
  shows "GenerateRows i s =
     s\<lparr>cave := (cave s)\<lparr>map_c := map_c (cave s) @
          map (\<lambda>a. map (\<lambda>k. Region_new (int a) (int k)
                 (reng s (d0 + a * nat (size_c (cave s)) + k) < dsub 1 (accessibility s)))
                 [0..<nat (size_c (cave s))])
              [nat i..<nat (size_c (cave s))]\<rparr>,
        drawn := d0 + max (nat i) (nat (size_c (cave s))) * nat (size_c (cave s))\<rparr>"
  using assms
proof (induction i s rule: GenerateRows.induct)
  case (1 i s)
  let ?n = "nat (size_c (cave s))"
  let ?row = "\<lambda>a. map (\<lambda>k. Region_new (int a) (int k)
                 (reng s (d0 + a * ?n + k) < dsub 1 (accessibility s))) [0..<?n]"
  show ?case
  proof (cases "i < size_c (cave s)")
    case False
    with "1.prems" have "[nat i..<?n] = []" "max (nat i) ?n = nat i" by simp_all
    with False "1.prems" show ?thesis
      by (simp add: GenerateRows.simps [of i s])
  next
    case True
    define s1 where "s1 = s\<lparr>drawn := d0 + nat i * ?n + ?n\<rparr>"
    define s2 where "s2 = s1\<lparr>cave := (cave s1)\<lparr>map_c := map_c (cave s1) @ [?row (nat i)]\<rparr>\<rparr>"
    from GenerateStrip_eq [of 0 s "d0 + nat i * ?n" i "[]"] "1.prems"
    have g: "GenerateStrip i 0 [] s = (?row (nat i), s1)"
      by (simp add: s1_def)
    have n2: "nat (size_c (cave s2)) = ?n" by (simp add: s2_def s1_def)
    from "1.prems" have d2: "drawn s2 = d0 + nat (i + 1) * nat (size_c (cave s2))"
      by (simp add: n2) (simp add: s2_def s1_def nat_add_distrib)
    from "1.prems" have i1: "0 \<le> i + 1" by simp
    from "1.IH" [OF True g [symmetric] i1] d2
    have ih: "GenerateRows (i + 1) s2 =
        s2\<lparr>cave := (cave s2)\<lparr>map_c := map_c (cave s2) @ map ?row [nat (i + 1)..<?n]\<rparr>,
           drawn := d0 + max (nat (i + 1)) ?n * ?n\<rparr>"
      by (simp add: s2_def s1_def)
    from True "1.prems" have lt: "nat i < ?n" by simp
    then have u: "[nat i..<?n] = nat i # [nat (i + 1)..<?n]"
      using "1.prems"(1) by (simp add: upt_conv_Cons nat_add_distrib)
    from True "1.prems"(1) have mx: "max (nat (i + 1)) ?n = max (nat i) ?n"
      by (simp add: max_def)
    from True g have "GenerateRows i s = GenerateRows (i + 1) s2"
      by (simp add: GenerateRows.simps [of i s] s2_def)
    with ih show ?thesis
      by (simp add: u mx s2_def s1_def)
  qed
qed

text \<open>
  \<open>GenerateMap\<close> on an object that has no row yet: \<open>size * size\<close> variates are drawn,
  row by row, and the map is well formed and fresh.
\<close>

lemma GenerateMap_eq:
  assumes "map_c (cave s) = []"
  shows "GenerateMap s =
     s\<lparr>cave := (cave s)\<lparr>map_c :=
          map (\<lambda>a. map (\<lambda>k. Region_new (int a) (int k)
                 (reng s (drawn s + a * nat (size_c (cave s)) + k) < dsub 1 (accessibility s)))
                 [0..<nat (size_c (cave s))])
              [0..<nat (size_c (cave s))]\<rparr>,
        drawn := drawn s + nat (size_c (cave s)) * nat (size_c (cave s))\<rparr>"
  using GenerateRows_eq [of 0 s "drawn s"] assms by (simp add: GenerateMap_def)

lemma GenerateMap_built:
  assumes "map_c (cave s) = []" and "1 \<le> size_c (cave s)"
  shows "wf_cave (cave (GenerateMap s))" and "fresh (cave (GenerateMap s))"
    and "size_c (cave (GenerateMap s)) = size_c (cave s)"
    and "frame s (GenerateMap s\<lparr>drawn := drawn s\<rparr>)"
    and "successful_attempts (GenerateMap s) = successful_attempts s"
    and "drawn (GenerateMap s) = drawn s + nat (size_c (cave s)) * nat (size_c (cave s))"
    and "(\<forall>k. \<not> reng s k < dsub 1 (accessibility s)) \<Longrightarrow>
         list_all (list_all IsAccessible) (map_c (cave (GenerateMap s)))"
  using assms(2)
  by (simp_all add: GenerateMap_eq [OF assms(1)] wf_cave_def fresh_def frame_def comp_def
      Region_new_def IsUnknown_def IsAccessible_def list_all_iff)

subsection \<open>Claims about the traversal of a map as the program builds it\<close>

text \<open>
  C8. The traversal terminates. \<open>explore\<close> is a total function: the number of cells that
  can still be pushed plus the height of the stack decreases with every round of the
  loop. On a map as the program builds it the traversal returns without an error; it
  ends with an empty stack or, outside mode A, with a cell of the bottom row on top of
  the stack; and it has pushed at most \<open>N + N * N\<close> regions (the entries of row 0, and
  after them every cell at most once).
\<close>

theorem C8_traversal_terminates:
  assumes "wf_cave (cave s)" and "fresh (cave s)"
  shows "\<exists>st' s'. traverse s = Inr (st', s') \<and> AttemptCaveTraverse s = Inr s' \<and>
           (items st' = [] \<or>
            exec_mode s \<noteq> A \<and> y (top_stack st') + 1 = size_c (cave s)) \<and>
           length (pushes st') \<le>
             nat (size_c (cave s)) + nat (size_c (cave s)) * nat (size_c (cave s))"
proof -
  from traverse_post [OF assms] obtain st' s' where t: "traverse s = Inr (st', s')"
    and p: "post (cave s) (successful_attempts s) (st', s')"
    by blast
  from t have "frame s s'" by (rule traverse_keeps)
  then have m: "exec_mode s' = exec_mode s" by (simp add: frame_def)
  from p have "length (pushes st') + unknown_count (cave s') \<le>
      nat (size_c (cave s)) + unknown_count (cave s)"
    by (simp add: post_def inv1_def)
  with unknown_count_le [OF assms(1)]
  have "length (pushes st') \<le>
      nat (size_c (cave s)) + nat (size_c (cave s)) * nat (size_c (cave s))"
    by simp
  moreover from p m
  have "items st' = [] \<or> exec_mode s \<noteq> A \<and> y (top_stack st') + 1 = size_c (cave s)"
    by (auto simp: post_def split: if_splits)
  moreover from t have "AttemptCaveTraverse s = Inr s'"
    by (simp add: AttemptCaveTraverse_def bind_def)
  ultimately show ?thesis using t by blast
qed

theorem C8_witness:
  "wf_cave (cave open_2) \<and> fresh (cave open_2) \<and>
   (\<exists>st' s'. traverse open_2 = Inr (st', s') \<and> AttemptCaveTraverse open_2 = Inr s' \<and>
      (items st' = [] \<or>
       exec_mode open_2 \<noteq> A \<and> y (top_stack st') + 1 = size_c (cave open_2)) \<and>
      length (pushes st') \<le>
        nat (size_c (cave open_2)) + nat (size_c (cave open_2)) * nat (size_c (cave open_2)))"
proof -
  have w: "wf_cave (cave open_2)"
    by (simp add: open_2_def Speleo_new_def wf_cave_def Region_new_def upt_rec)
  have f: "fresh (cave open_2)"
    by (simp add: open_2_def Speleo_new_def fresh_def Region_new_def IsUnknown_def)
  from C8_traversal_terminates [OF w f] w f show ?thesis by blast
qed


text \<open>
  C6. On a map whose whole top row is obstructed the traversal ends without an error
  and without a success: nothing is pushed, the object is left as it was (so no cell is
  marked discovered), and in mode A the program prints that the exit was not found and
  a matrix of ones (every cell undiscovered).
\<close>

theorem C6_obstructed_top_row:
  assumes "wf_cave (cave s)" and "fresh (cave s)"
    and "list_all obstructed (map_c (cave s) ! nat ENTRY)"
  shows "traverse s = Inr (new_stack, s) \<and> AttemptCaveTraverse s = Inr s \<and>
         Run_A s = Inr (s\<lparr>successful_attempts := 0,
           console := console s @
             [ExitNotFound, Paths (map (map (\<lambda>region. True)) (map_c (cave s)))]\<rparr>)"
proof -
  have "filter (\<lambda>r. IsAccessible r \<and> IsUnknown r) (map_c (cave s) ! nat ENTRY) = []"
    using assms(3) by (auto simp: filter_empty_conv list_all_iff IsAccessible_def)
  then have fe: "find_entries (map_c (cave s) ! nat ENTRY) new_stack = new_stack"
    by (simp add: find_entries_eq)
  from assms(1) wf_cave_lengths(1) [OF assms(1)] have ne: "0 < length (map_c (cave s))"
    by (simp add: wf_cave_def)
  have ex: "explore (new_stack, s') = Inr (new_stack, s')" for s'
    by (subst explore.simps) (simp add: empty_stack_def new_stack_def)
  have st: "cave (s'\<lparr>successful_attempts := 0\<rparr>) = cave s'" for s' :: Speleo by simp
  have t: "traverse s' = Inr (new_stack, s')" if "cave s' = cave s" for s'
    using ne fe ex that by (simp add: traverse_def ENTRY_def)
  then have a: "AttemptCaveTraverse s' = Inr s'" if "cave s' = cave s" for s'
    using that by (simp add: AttemptCaveTraverse_def bind_def)
  have "map (map (\<lambda>region. \<not> discovered region)) (map_c (cave s)) =
      map (map (\<lambda>region. True)) (map_c (cave s))"
    using assms(2) by (auto simp: fresh_def list_all_iff IsUnknown_def)
  then have "Run_A s = Inr (s\<lparr>successful_attempts := 0,
      console := console s @
        [ExitNotFound, Paths (map (map (\<lambda>region. True)) (map_c (cave s)))]\<rparr>)"
    by (simp add: Run_A_def a DisplayPaths_def)
  with t [of s] a [of s] show ?thesis by simp
qed

text \<open>Mode A, size 2, the user types \<^verbatim>\<open>1 1 0 0\<close>: the top row is obstructed.\<close>

definition blocked_2 :: Speleo where
  "blocked_2 = Speleo_new A 2 1 0
     [[Region_new 0 0 True, Region_new 0 1 True],
      [Region_new 1 0 False, Region_new 1 1 False]] (\<lambda>k. 0)"

theorem C6_witness:
  "wf_cave (cave blocked_2) \<and> fresh (cave blocked_2) \<and>
   list_all obstructed (map_c (cave blocked_2) ! nat ENTRY) \<and>
   traverse blocked_2 = Inr (new_stack, blocked_2) \<and>
   AttemptCaveTraverse blocked_2 = Inr blocked_2 \<and>
   Run_A blocked_2 = Inr (blocked_2\<lparr>successful_attempts := 0,
     console := [ExitNotFound, Paths [[True, True], [True, True]]]\<rparr>)"
proof -
  have w: "wf_cave (cave blocked_2)"
    by (simp add: blocked_2_def Speleo_new_def wf_cave_def Region_new_def upt_rec)
  have f: "fresh (cave blocked_2)"
    by (simp add: blocked_2_def Speleo_new_def fresh_def Region_new_def IsUnknown_def)
  have o: "list_all obstructed (map_c (cave blocked_2) ! nat ENTRY)"
    by (simp add: blocked_2_def Speleo_new_def Region_new_def ENTRY_def)
  have "console blocked_2 = []" "map_c (cave blocked_2) =
      [[Region_new 0 0 True, Region_new 0 1 True], [Region_new 1 0 False, Region_new 1 1 False]]"
    by (simp_all add: blocked_2_def Speleo_new_def)
  with C6_obstructed_top_row [OF w f o] w f o show ?thesis by simp
qed

text \<open>
  C4. In mode A the traversal goes on after a region of the bottom row was popped and
  so discovers every cell that can be reached; in every other mode it stops at the
  first such region. The code breaks the part about mode A: on the open map of size 1
  the only cell is an accessible cell of row 0, hence reachable; the loop counts the
  success, pops the region and goes on until the stack is empty; and the cell of the
  map is still not discovered when the traversal returns, because the entry was marked
  on a copy and has no neighbour that could scout it.
\<close>

theorem C4_reachable_cell_left_undiscovered:
  "exec_mode open_1 = A \<and> reachable (cave open_1) (0, 0) \<and>
   (\<exists>st' s'. traverse open_1 = Inr (st', s') \<and> items st' = [] \<and>
      successful_attempts s' = 1 \<and> map (\<lambda>r. (y r, x r)) (pops st') = [(0, 0)] \<and>
      \<not> discovered (region_at (cave s') 0 0))"
proof -
  have m: "exec_mode open_1 = A" by (simp add: open_1_def Speleo_new_def)
  have r: "reachable (cave open_1) (0, 0)"
    by (rule reachable.entry)
       (simp_all add: open_1_def Speleo_new_def in_range_def region_at_def Region_new_def)
  have "\<exists>st' s'. traverse open_1 = Inr (st', s') \<and> items st' = [] \<and>
      successful_attempts s' = 1 \<and> map (\<lambda>r. (y r, x r)) (pops st') = [(0, 0)] \<and>
      \<not> discovered (region_at (cave s') 0 0)"
    by (simp add: traverse_open_1 region_at_def) (simp add: open_1_def Speleo_new_def Region_new_def)
  with m r show ?thesis by blast
qed

text \<open>
  C10. The loop over the entries works on copies: the loop that follows starts on the
  object as it was, with no cell of the map marked. So, on a map as the program builds
  it, a cell that has no popped region among its four neighbours is not discovered when
  the traversal returns, be it in row 0 or elsewhere. In particular for the map of size
  1 whose cell is open, mode A prints that the exit was found and prints the cell as
  never discovered.
\<close>

theorem C10_entries_marked_on_copies:
  "(wf_cave (cave s) \<and> fresh (cave s) \<longrightarrow>
      traverse s = explore (find_entries (map_c (cave s) ! nat ENTRY) new_stack, s) \<and>
      (\<forall>st' s' i j. traverse s = Inr (st', s') \<and> in_range (cave s) i j \<and>
         (\<forall>p \<in> set (pops st'). \<bar>y p - i\<bar> + \<bar>x p - j\<bar> \<noteq> 1) \<longrightarrow>
         \<not> discovered (region_at (cave s') i j))) \<and>
   (\<exists>s'. Run_A open_1 = Inr s' \<and> console s' = [ExitFound, Paths [[True]]])"
proof (intro conjI impI allI)
  assume a: "wf_cave (cave s) \<and> fresh (cave s)"
  then have wf: "wf_cave (cave s)" and fr: "fresh (cave s)" by simp_all
  from wf wf_cave_lengths(1) [OF wf] have "0 < length (map_c (cave s))"
    by (simp add: wf_cave_def)
  then show "traverse s = explore (find_entries (map_c (cave s) ! nat ENTRY) new_stack, s)"
    by (simp add: traverse_def ENTRY_def)
  fix st' s' i j
  assume b: "traverse s = Inr (st', s') \<and> in_range (cave s) i j \<and>
         (\<forall>p \<in> set (pops st'). \<bar>y p - i\<bar> + \<bar>x p - j\<bar> \<noteq> 1)"
  from traverse_post [OF wf fr] b have p: "post (cave s) (successful_attempts s) (st', s')"
    by auto
  then have i1: "inv1 (cave s) (st', s')" by (simp add: post_def)
  show "\<not> discovered (region_at (cave s') i j)"
  proof
    assume "discovered (region_at (cave s') i j)"
    from inv1_discovered(2) [OF i1 _ this] b obtain p where p: "p \<in> set (pops st')"
      "(i, j) \<in> set (around (size_c (cave s)) (y p) (x p))"
      by blast
    from inv1_pushes_in_range [OF i1 p(1)] have "in_range (cave s) (y p) (x p)" .
    from around_iff [OF wf this, of i j] p(2) have "\<bar>i - y p\<bar> + \<bar>j - x p\<bar> = 1" by simp
    with b p(1) show False by fastforce
  qed
next
  have "open_1\<lparr>successful_attempts := 0\<rparr> = open_1"
    by (simp add: open_1_def Speleo_new_def)
  then have "AttemptCaveTraverse (open_1\<lparr>successful_attempts := 0\<rparr>) =
      Inr (open_1\<lparr>successful_attempts := 1\<rparr>)"
    by (simp add: AttemptCaveTraverse_def traverse_open_1 bind_def)
  then show "\<exists>s'. Run_A open_1 = Inr s' \<and> console s' = [ExitFound, Paths [[True]]]"
    by (simp add: Run_A_def DisplayPaths_def open_1_def Speleo_new_def Region_new_def)
qed

theorem C10_witness:
  "wf_cave (cave open_1) \<and> fresh (cave open_1) \<and>
   (\<exists>st' s'. traverse open_1 = Inr (st', s') \<and> in_range (cave open_1) 0 0 \<and>
      (\<forall>p \<in> set (pops st'). \<bar>y p - 0\<bar> + \<bar>x p - 0\<bar> \<noteq> 1) \<and>
      \<not> discovered (region_at (cave s') 0 0))"
proof -
  have w: "wf_cave (cave open_1)"
    by (simp add: open_1_def Speleo_new_def wf_cave_def Region_new_def upt_rec)
  have f: "fresh (cave open_1)"
    by (simp add: open_1_def Speleo_new_def fresh_def Region_new_def IsUnknown_def)
  obtain st' s' where t: "traverse open_1 = Inr (st', s')"
    and po: "\<forall>p \<in> set (pops st'). \<bar>y p - 0\<bar> + \<bar>x p - 0\<bar> \<noteq> 1"
    using traverse_open_1 by simp
  have r: "in_range (cave open_1) 0 0"
    by (simp add: open_1_def Speleo_new_def in_range_def)
  from C10_entries_marked_on_copies [of open_1] w f t r po
  have "\<not> discovered (region_at (cave s') 0 0)" by blast
  with w f t r po show ?thesis by blast
qed


subsection \<open>Facts about binary64 rounding\<close>

lemma bitlen_numeral_simps:
  "bitlen 1 = 1"
  "bitlen (numeral num.One) = 1"
  "bitlen (numeral (num.Bit0 n)) = bitlen (numeral n) + 1"
  "bitlen (numeral (num.Bit1 n)) = bitlen (numeral n) + 1"
proof -
  show "bitlen 1 = 1" by (simp add: bitlen_alt_def)
  show "bitlen (numeral num.One) = 1" by (simp add: bitlen_alt_def)
  have "(numeral (num.Bit0 n) :: int) div 2 = numeral n" by simp
  then show "bitlen (numeral (num.Bit0 n)) = bitlen (numeral n) + 1"
    by (subst compute_bitlen) simp
  have "(numeral (num.Bit1 n) :: int) div 2 = numeral n" by simp
  then show "bitlen (numeral (num.Bit1 n)) = bitlen (numeral n) + 1"
    by (subst compute_bitlen) simp
qed

lemma floor_ceiling_rat_numeral:
  "\<lfloor>numeral a / numeral b :: rat\<rfloor> = numeral a div numeral b"
  "\<lceil>numeral a / numeral b :: rat\<rceil> = - (- numeral a div numeral b)"
  "\<lfloor>1 / numeral b :: rat\<rfloor> = 1 div numeral b"
  "\<lceil>1 / numeral b :: rat\<rceil> = - (- 1 div numeral b)"
proof -
  show "\<lfloor>numeral a / numeral b :: rat\<rfloor> = numeral a div numeral b"
    using floor_divide_of_int_eq [of "numeral a" "numeral b", where ?'a = rat] by simp
  show "\<lfloor>1 / numeral b :: rat\<rfloor> = 1 div numeral b"
    using floor_divide_of_int_eq [of 1 "numeral b", where ?'a = rat] by simp
  have c: "\<lceil>of_int k / of_int l :: rat\<rceil> = - (- k div l)" for k l
    using floor_divide_of_int_eq [of "- k" l, where ?'a = rat] by (simp add: ceiling_def)
  show "\<lceil>numeral a / numeral b :: rat\<rceil> = - (- numeral a div numeral b)"
    using c [of "numeral a" "numeral b"] by simp
  show "\<lceil>1 / numeral b :: rat\<rceil> = - (- 1 div numeral b)"
    using c [of 1 "numeral b"] by simp
qed

lemmas fl_eval = fl_def ilog2_def pow2_def rne_def Let_def bitlen_numeral_simps
  floor_ceiling_rat_numeral

lemma fl_0 [simp]: "fl 0 = 0"
  by (simp add: fl_def)

lemma fl_1 [simp]: "fl 1 = 1"
  by (simp add: fl_eval)




subsection \<open>One sample, and the loop over the samples\<close>

text \<open>
  Between two samples the object has no row, its size is at least 1 and its mode is not
  A. \<open>same_setup\<close> lists what a sample leaves as it was. \<open>all_open\<close> says that no variate
  of the engine lies below the obstruction probability \<open>1 - accessibility\<close>.
\<close>

definition ready :: "Speleo \<Rightarrow> bool" where
  "ready s = (map_c (cave s) = [] \<and> 1 \<le> size_c (cave s) \<and> exec_mode s \<noteq> A)"

definition same_setup :: "Speleo \<Rightarrow> Speleo \<Rightarrow> bool" where
  "same_setup s s' =
     (exec_mode s' = exec_mode s \<and> sample_size s' = sample_size s \<and>
      accessibility s' = accessibility s \<and> reng s' = reng s \<and> console s' = console s \<and>
      cave s' = cave s)"

definition all_open :: "Speleo \<Rightarrow> bool" where
  "all_open s = (\<forall>k. \<not> reng s k < dsub 1 (accessibility s))"

lemma open_region:
  assumes "list_all (list_all IsAccessible) (map_c c)" and "in_range c i j"
  shows "\<not> obstructed (region_at c i j)"
proof -
  from assms(2) have "nat i < length (map_c c)" "nat j < length (map_c c ! nat i)"
    by (auto simp: in_range_def)
  then have "map_c c ! nat i \<in> set (map_c c)" "region_at c i j \<in> set (map_c c ! nat i)"
    by (simp_all add: region_at_def)
  with assms(1) show ?thesis
    by (auto simp: list_all_iff IsAccessible_def)
qed

lemma open_reachable:
  assumes wf: "wf_cave c" and o: "list_all (list_all IsAccessible) (map_c c)"
    and k: "k < nat (size_c c)"
  shows "reachable c (int k, 0)"
  using k
proof (induction k)
  case 0
  then have r: "in_range c 0 0" by (simp add: wf_in_range [OF wf])
  from reachable.entry [OF r open_region [OF o r]] show ?case by simp
next
  case (Suc k)
  from Suc.prems have "int (Suc k) < size_c c" by linarith
  then have r: "in_range c (int (Suc k)) 0" by (simp add: wf_in_range [OF wf])
  from Suc have "reachable c (int k, 0)" by simp
  from reachable.step [OF this r _ open_region [OF o r]] show ?case by simp
qed

lemma post_open_success:
  assumes p: "post c0 k0 (st, s)" and m: "exec_mode s \<noteq> A"
    and o: "list_all (list_all IsAccessible) (map_c c0)"
  shows "successful_attempts s = k0 + 1"
proof (rule ccontr)
  assume n: "successful_attempts s \<noteq> k0 + 1"
  from p m have bp: "bottom_pops c0 st = 0"
    and alt: "items st = [] \<and> successful_attempts s = k0 \<or>
      items st \<noteq> [] \<and> y (top_stack st) + 1 = size_c c0 \<and> successful_attempts s = k0 + 1"
    by (simp_all add: post_def)
  from alt n have e: "items st = []" by blast
  from p have i1: "inv1 c0 (st, s)" by (simp add: post_def)
  then have wf0: "wf_cave c0" by (simp add: inv1_def)
  then have n1: "1 \<le> size_c c0" by (simp add: wf_cave_def)
  let ?i = "size_c c0 - 1"
  from n1 have "nat ?i < nat (size_c c0)" by simp
  from open_reachable [OF wf0 o this] n1 have "reachable c0 (?i, 0)" by simp
  from post_reachable_pushed [OF p e this]
  have r: "in_range c0 ?i 0" and pu: "pushed_cell c0 ?i 0 \<in> set (pushes st)" by simp_all
  from i1 e pu have po: "pushed_cell c0 ?i 0 \<in> set (pops st)" by (simp add: inv1_def)
  from wf_coords(1) [OF wf0 r] have "y (pushed_cell c0 ?i 0) + 1 = size_c c0"
    by (simp add: pushed_cell_def)
  with po have "filter (\<lambda>p. y p + 1 = size_c c0) (pops st) \<noteq> []"
    by (auto simp: filter_empty_conv)
  with bp show False by (simp add: bottom_pops_def)
qed

lemma trial:
  assumes r: "ready s"
  shows "\<exists>s2. AttemptCaveTraverse (GenerateMap s) = Inr s2 \<and> ready (ResetMap s2) \<and>
     same_setup s (ResetMap s2) \<and>
     drawn (ResetMap s2) = drawn s + nat (size_c (cave s)) * nat (size_c (cave s)) \<and>
     (successful_attempts (ResetMap s2) = successful_attempts s \<or>
      successful_attempts (ResetMap s2) = successful_attempts s + 1) \<and>
     (all_open s \<longrightarrow> successful_attempts (ResetMap s2) = successful_attempts s + 1)"
proof -
  let ?g = "GenerateMap s"
  from r have e: "map_c (cave s) = []" and n: "1 \<le> size_c (cave s)" and m: "exec_mode s \<noteq> A"
    by (simp_all add: ready_def)
  note b = GenerateMap_built [OF e n]
  from b(4) have fg: "exec_mode ?g = exec_mode s" "sample_size ?g = sample_size s"
    "accessibility ?g = accessibility s" "reng ?g = reng s" "console ?g = console s"
    by (simp_all add: frame_def)
  from traverse_post [OF b(1,2)] obtain st' s2 where t: "traverse ?g = Inr (st', s2)"
    and p: "post (cave ?g) (successful_attempts ?g) (st', s2)"
    by blast
  from traverse_keeps [OF t] have f2: "frame ?g s2" and g2: "grows (cave ?g) (cave s2)" by simp_all
  from f2 fg have fs: "exec_mode s2 = exec_mode s" "sample_size s2 = sample_size s"
    "accessibility s2 = accessibility s" "reng s2 = reng s" "console s2 = console s"
    "drawn s2 = drawn ?g"
    by (simp_all add: frame_def)
  from g2 b(3) have sz: "size_c (cave s2) = size_c (cave s)" by (simp add: grows_def)
  with e have cv: "(cave s2)\<lparr>map_c := []\<rparr> = cave s" by (intro Map.equality) simp_all
  from p m fs(1) b(5)
  have k: "successful_attempts s2 = successful_attempts s \<or>
      successful_attempts s2 = successful_attempts s + 1"
    by (auto simp: post_def)
  have ao: "successful_attempts s2 = successful_attempts s + 1" if "all_open s"
  proof -
    from that have "list_all (list_all IsAccessible) (map_c (cave ?g))"
      by (intro b(7)) (simp add: all_open_def)
    from post_open_success [OF p _ this] m fs(1) b(5) show ?thesis by simp
  qed
  from t have a: "AttemptCaveTraverse ?g = Inr s2"
    by (simp add: AttemptCaveTraverse_def bind_def)
  from a m n fs cv sz k ao b(6) show ?thesis
    by (auto simp: ready_def same_setup_def ResetMap_def)
qed


lemma all_open_same_setup:
  assumes "same_setup s s'"
  shows "all_open s' = all_open s"
  using assms by (simp add: all_open_def same_setup_def)

lemma sample_loop_result:
  assumes "ready s" and "sample \<le> sample_size s"
  shows "\<exists>s'. sample_loop sample s = Inr s' \<and> ready s' \<and> same_setup s s' \<and>
     drawn s' = drawn s +
       nat (sample_size s - sample) * (nat (size_c (cave s)) * nat (size_c (cave s))) \<and>
     successful_attempts s \<le> successful_attempts s' \<and>
     successful_attempts s' \<le> successful_attempts s + (sample_size s - sample) \<and>
     (all_open s \<longrightarrow> successful_attempts s' = successful_attempts s + (sample_size s - sample))"
  using assms
proof (induction sample s rule: sample_loop.induct)
  case (1 sample s)
  show ?case
  proof (cases "sample < sample_size s")
    case False
    with "1.prems" have "sample_size s - sample = 0" by simp
    with False "1.prems" show ?thesis
      by (simp add: sample_loop.simps [of sample s] same_setup_def)
  next
    case True
    from trial [OF "1.prems"(1)] obtain s2 where
      a: "AttemptCaveTraverse (GenerateMap s) = Inr s2" and r2: "ready (ResetMap s2)"
      and ss: "same_setup s (ResetMap s2)"
      and d2: "drawn (ResetMap s2) = drawn s + nat (size_c (cave s)) * nat (size_c (cave s))"
      and k2: "successful_attempts (ResetMap s2) = successful_attempts s \<or>
        successful_attempts (ResetMap s2) = successful_attempts s + 1"
      and o2: "all_open s \<longrightarrow> successful_attempts (ResetMap s2) = successful_attempts s + 1"
      by blast
    let ?t = "ResetMap s2"
    from ss have sz: "sample_size ?t = sample_size s" "cave ?t = cave s"
      by (simp_all add: same_setup_def)
    with True have le: "sample + 1 \<le> sample_size ?t" by simp
    from "1.IH" [OF True a r2 le] obtain s' where
      l: "sample_loop (sample + 1) ?t = Inr s'" and r': "ready s'" and ss': "same_setup ?t s'"
      and d': "drawn s' = drawn ?t +
        nat (sample_size ?t - (sample + 1)) * (nat (size_c (cave ?t)) * nat (size_c (cave ?t)))"
      and lo: "successful_attempts ?t \<le> successful_attempts s'"
      and hi: "successful_attempts s' \<le> successful_attempts ?t + (sample_size ?t - (sample + 1))"
      and o': "all_open ?t \<longrightarrow>
        successful_attempts s' = successful_attempts ?t + (sample_size ?t - (sample + 1))"
      by blast
    from True a l have e: "sample_loop sample s = Inr s'"
      by (simp add: sample_loop.simps [of sample s])
    from ss ss' have s3: "same_setup s s'" by (simp add: same_setup_def)
    from True have "nat (sample_size s - sample) = Suc (nat (sample_size s - (sample + 1)))"
      by simp
    with d' d2 sz have d3: "drawn s' = drawn s +
        nat (sample_size s - sample) * (nat (size_c (cave s)) * nat (size_c (cave s)))"
      by simp
    from k2 lo have lo3: "successful_attempts s \<le> successful_attempts s'" by auto
    from k2 hi sz have hi3: "successful_attempts s' \<le> successful_attempts s + (sample_size s - sample)"
      by auto
    have o3: "successful_attempts s' = successful_attempts s + (sample_size s - sample)"
      if "all_open s"
    proof -
      from that all_open_same_setup [OF ss] have "all_open ?t" by simp
      with o' o2 that sz show ?thesis by simp
    qed
    from e r' s3 d3 lo3 hi3 o3 show ?thesis by blast
  qed
qed

lemma Run_B_result:
  assumes r: "ready s" and n: "1 \<le> sample_size s"
  shows "\<exists>s' k. Run_B s = Inr s' \<and> ready s' \<and> successful_attempts s' = k \<and>
     0 \<le> k \<and> k \<le> sample_size s \<and>
     (all_open s \<longrightarrow> k = sample_size s) \<and>
     exec_mode s' = exec_mode s \<and> sample_size s' = sample_size s \<and>
     accessibility s' = accessibility s \<and> reng s' = reng s \<and> cave s' = cave s \<and>
     drawn s' = drawn s +
       nat (sample_size s) * (nat (size_c (cave s)) * nat (size_c (cave s))) \<and>
     console s' = console s @
       [Success (accessibility s) (Some (fl (of_int k / of_int (sample_size s))))]"
proof -
  let ?s0 = "s\<lparr>successful_attempts := 0\<rparr>"
  from r have r0: "ready ?s0" by (simp add: ready_def)
  from n have le: "0 \<le> sample_size ?s0" by simp
  from sample_loop_result [OF r0 le] obtain s1 where
    l: "sample_loop 0 ?s0 = Inr s1" and r1: "ready s1" and ss: "same_setup ?s0 s1"
    and d: "drawn s1 = drawn s +
      nat (sample_size s) * (nat (size_c (cave s)) * nat (size_c (cave s)))"
    and lo: "0 \<le> successful_attempts s1" and hi: "successful_attempts s1 \<le> sample_size s"
    and o: "all_open ?s0 \<longrightarrow> successful_attempts s1 = sample_size s"
    by auto
  have ao: "all_open ?s0 = all_open s" by (simp add: all_open_def)
  from n have nz: "(of_int (sample_size s) :: rat) \<noteq> 0" by simp
  from l ss nz have "Run_B s = Inr (s1\<lparr>console := console s @
      [Success (accessibility s)
        (Some (fl (of_int (successful_attempts s1) / of_int (sample_size s))))]\<rparr>)"
    by (simp add: Run_B_def ddiv_def same_setup_def)
  with r1 ss d lo hi o ao show ?thesis
    by (auto simp: ready_def same_setup_def)
qed

subsection \<open>Claims about mode B\<close>





text \<open>
  C7. With accessibility 1 the obstruction probability is \<open>1 - 1 = 0\<close> and no variate
  of \<open>[0, 1)\<close> lies below it: every generated map is fully open, every sample is a
  success, and mode B prints the quotient 1, for every size and sample size of at
  least 1.
\<close>

theorem C7_full_accessibility:
  assumes "exec_mode s = B" and "map_c (cave s) = []" and "1 \<le> size_c (cave s)"
    and "1 \<le> sample_size s" and "accessibility s = 1"
    and "\<forall>k. 0 \<le> reng s k \<and> reng s k < 1"
  shows "list_all (list_all IsAccessible) (map_c (cave (GenerateMap s))) \<and>
         (\<exists>s2. AttemptCaveTraverse (GenerateMap s) = Inr s2 \<and>
            successful_attempts s2 = successful_attempts s + 1) \<and>
         (\<exists>s'. Run s = Some (Inr s') \<and> successful_attempts s' = sample_size s \<and>
            console s' = console s @ [Success 1 (Some 1)])"
proof -
  from assms have r: "ready s" by (simp add: ready_def)
  from assms(5,6) have ao: "all_open s"
    by (simp add: all_open_def dsub_def not_less)
  then have "\<forall>k. \<not> reng s k < dsub 1 (accessibility s)" by (simp add: all_open_def)
  from GenerateMap_built(7) [OF assms(2,3) this]
  have 1: "list_all (list_all IsAccessible) (map_c (cave (GenerateMap s)))" .
  from trial [OF r] ao
  have 2: "\<exists>s2. AttemptCaveTraverse (GenerateMap s) = Inr s2 \<and>
      successful_attempts s2 = successful_attempts s + 1"
    by (auto simp: ResetMap_def)
  from Run_B_result [OF r assms(4)] ao obtain s' where
    b: "Run_B s = Inr s'" and k: "successful_attempts s' = sample_size s"
    and c: "console s' = console s @
      [Success (accessibility s) (Some (fl (of_int (sample_size s) / of_int (sample_size s))))]"
    by auto
  from assms(4) have "(of_int (sample_size s) :: rat) / of_int (sample_size s) = 1" by simp
  with c assms(5) have "console s' = console s @ [Success 1 (Some 1)]" by simp
  with b k assms(1) have 3: "\<exists>s'. Run s = Some (Inr s') \<and>
      successful_attempts s' = sample_size s \<and> console s' = console s @ [Success 1 (Some 1)]"
    by (simp add: Run_def)
  from 1 2 3 show ?thesis by blast
qed

text \<open>Mode B, size 2, accessibility 1, three samples; every variate is \<open>1/2\<close>.\<close>

definition certain_2 :: Speleo where
  "certain_2 = Speleo_new B 2 3 1 [] (\<lambda>k. 1 / 2)"

theorem C7_witness:
  "exec_mode certain_2 = B \<and> map_c (cave certain_2) = [] \<and> 1 \<le> size_c (cave certain_2) \<and>
   1 \<le> sample_size certain_2 \<and> accessibility certain_2 = 1 \<and>
   (\<forall>k. 0 \<le> reng certain_2 k \<and> reng certain_2 k < 1) \<and>
   list_all (list_all IsAccessible) (map_c (cave (GenerateMap certain_2))) \<and>
   (\<exists>s2. AttemptCaveTraverse (GenerateMap certain_2) = Inr s2 \<and> successful_attempts s2 = 1) \<and>
   (\<exists>s'. Run certain_2 = Some (Inr s') \<and> successful_attempts s' = 3 \<and>
      console s' = [Success 1 (Some 1)])"
proof -
  have h: "exec_mode certain_2 = B" "map_c (cave certain_2) = []"
    "1 \<le> size_c (cave certain_2)" "1 \<le> sample_size certain_2" "accessibility certain_2 = 1"
    "\<forall>k. 0 \<le> reng certain_2 k \<and> reng certain_2 k < 1"
    by (simp_all add: certain_2_def Speleo_new_def)
  have v: "sample_size certain_2 = 3" "console certain_2 = []"
    "successful_attempts certain_2 = 0"
    by (simp_all add: certain_2_def Speleo_new_def)
  from C7_full_accessibility [OF h] h show ?thesis
    by (simp add: v)
qed

subsection \<open>The sweep of mode C\<close>

text \<open>
  One step of the loop variable, \<^verbatim>\<open>accessibility += 0.01\<close>, and the values that the
  variable takes in the rounds of the loop, at most \<open>k\<close> of them.
\<close>

definition dstep :: "double \<Rightarrow> double" where
  "dstep a = dadd a (fl (1 / 100))"

fun sweep_points :: "nat \<Rightarrow> double \<Rightarrow> double list" where
  "sweep_points 0 a = []"
| "sweep_points (Suc k) a = (if a \<le> 1 then a # sweep_points k (dstep a) else [])"

lemma sweep_points_numeral:
  "sweep_points (numeral k) a =
     (if a \<le> 1 then a # sweep_points (pred_numeral k) (dstep a) else [])"
  by (simp add: numeral_eq_Suc)

text \<open>
  The literal \<^verbatim>\<open>0.01\<close> is the binary64 number \<^verbatim>\<open>0x3F847AE147AE147B\<close>, that is
  \<open>5764607523034235 / 2 ^ 59\<close>, a little above \<open>1/100\<close>.
\<close>

lemma fl_hundredth: "fl (1 / 100) = 5764607523034235 / 576460752303423488"
  by (simp add: fl_eval)

text \<open>
  The hundred values of the loop variable, in units of \<open>2 powr -59\<close>. The last one is
  \<open>0.99000000000000066\<close>; the sum that follows it is \<open>1.0000000000000007\<close>, above 1.
\<close>

definition sweep_values :: "double list" where
  "sweep_values = map (\<lambda>n. of_int n / 2 ^ 59)
     [0, 5764607523034235, 11529215046068470, 17293822569102704, 23058430092136940,
      28823037615171176, 34587645138205412, 40352252661239648, 46116860184273880,
      51881467707308112, 57646075230342344, 63410682753376576, 69175290276410808,
      74939897799445040, 80704505322479280, 86469112845513520, 92233720368547760,
      97998327891582000, 103762935414616240, 109527542937650480, 115292150460684720,
      121056757983718960, 126821365506753200, 132585973029787440, 138350580552821680,
      144115188075855904, 149879795598890144, 155644403121924384, 161409010644958624,
      167173618167992864, 172938225691027104, 178702833214061344, 184467440737095584,
      190232048260129824, 195996655783164064, 201761263306198304, 207525870829232544,
      213290478352266784, 219055085875301024, 224819693398335264, 230584300921369504,
      236348908444403744, 242113515967437984, 247878123490472224, 253642731013506464,
      259407338536540704, 265171946059574944, 270936553582609184, 276701161105643424,
      282465768628677664, 288230376151711872, 293994983674746112, 299759591197780352,
      305524198720814592, 311288806243848832, 317053413766883072, 322818021289917312,
      328582628812951552, 334347236335985792, 340111843859020032, 345876451382054272,
      351641058905088512, 357405666428122752, 363170273951156992, 368934881474191232,
      374699488997225472, 380464096520259712, 386228704043293952, 391993311566328192,
      397757919089362432, 403522526612396672, 409287134135430912, 415051741658465152,
      420816349181499392, 426580956704533632, 432345564227567872, 438110171750602112,
      443874779273636352, 449639386796670592, 455403994319704832, 461168601842739072,
      466933209365773312, 472697816888807552, 478462424411841792, 484227031934876032,
      489991639457910272, 495756246980944512, 501520854503978752, 507285462027012992,
      513050069550047232, 518814677073081472, 524579284596115712, 530343892119149952,
      536108499642184192, 541873107165218432, 547637714688252672, 553402322211286912,
      559166929734321152, 564931537257355392, 570696144780389632]"

lemma sweep_points_values: "sweep_points 101 0 = sweep_values"
  unfolding sweep_values_def
  by (simp add: sweep_points_numeral dstep_def dadd_def fl_hundredth fl_eval)

lemma sweep_loop_points:
  assumes "ready s" and "1 \<le> sample_size s"
    and "length (sweep_points k (accessibility s)) < k"
  shows "\<exists>s' rs. sweep_loop s = Some (Inr s') \<and>
     length rs = length (sweep_points k (accessibility s)) \<and>
     console s' = console s @
       map2 (\<lambda>p r. Success p (Some r)) (sweep_points k (accessibility s)) rs"
  using assms
proof (induction k arbitrary: s)
  case 0
  then show ?case by simp
next
  case (Suc k)
  let ?a = "accessibility s"
  show ?case
  proof (cases "?a \<le> 1")
    case False
    then have "sweep_loop s = Some (Inr s)" by (subst sweep_loop.simps) simp
    with False show ?thesis by simp
  next
    case True
    from Run_B_result [OF Suc.prems(1,2)] obtain s1 r where
      b: "Run_B s = Inr s1" and r1: "ready s1" and f1: "sample_size s1 = sample_size s"
      "accessibility s1 = ?a"
      and c1: "console s1 = console s @ [Success ?a (Some r)]"
      by blast
    let ?s2 = "s1\<lparr>accessibility := dadd (accessibility s1) (fl (1 / 100))\<rparr>"
    from r1 have r2: "ready ?s2" by (simp add: ready_def)
    from f1 Suc.prems(2) have n2: "1 \<le> sample_size ?s2" by simp
    from f1 have a2: "accessibility ?s2 = dstep ?a" by (simp add: dstep_def)
    from Suc.prems(3) True a2 have l2: "length (sweep_points k (accessibility ?s2)) < k" by simp
    from Suc.IH [OF r2 n2 l2] a2 obtain s' rs where
      e: "sweep_loop ?s2 = Some (Inr s')" and l: "length rs = length (sweep_points k (dstep ?a))"
      and c: "console s' = console ?s2 @
        map2 (\<lambda>p r. Success p (Some r)) (sweep_points k (dstep ?a)) rs"
      by auto
    from True b e have "sweep_loop s = Some (Inr s')" by (subst sweep_loop.simps) simp
    moreover from True l have "length (r # rs) = length (sweep_points (Suc k) ?a)" by simp
    moreover from True c c1 have "console s' = console s @
        map2 (\<lambda>p r. Success p (Some r)) (sweep_points (Suc k) ?a) (r # rs)"
      by simp
    ultimately show ?thesis by blast
  qed
qed

text \<open>Mode C, size 1, one sample for each accessibility; every variate is 0.\<close>

definition sweep_1 :: Speleo where
  "sweep_1 = Speleo_new C 1 1 0 [] (\<lambda>k. 0)"

text \<open>
  C3. Mode C calls the sampling of mode B once for each of the 101 accessibilities
  0.00, 0.01, ..., 1.00, the last included. The code breaks this: the loop variable is a
  binary64 number to which 0.01 is added in each round, the hundredth sum exceeds 1, and
  the loop ends after 100 rounds. The last accessibility that is sampled is
  \<open>0.99000000000000066\<close>, and 1.00 is never sampled.
\<close>

theorem C3_sweep_ends_after_100_rounds:
  "\<exists>s'. Run sweep_1 = Some (Inr s') \<and> length (console s') = 100 \<and>
     (\<exists>r. last (console s') = Success (2229281815548397 / 2251799813685248) r) \<and>
     (\<forall>r. Success 1 r \<notin> set (console s'))"
proof -
  let ?s = "sweep_1\<lparr>successful_attempts := 0, accessibility := 0, exec_mode := B\<rparr>"
  have r: "ready ?s" and n: "1 \<le> sample_size ?s" and a: "accessibility ?s = 0"
    and c0: "console ?s = []"
    by (simp_all add: ready_def sweep_1_def Speleo_new_def)
  have len: "length sweep_values = 100" by (simp add: sweep_values_def)
  have lst: "last sweep_values = 2229281815548397 / 2251799813685248"
    by (simp add: sweep_values_def)
  have no1: "1 \<notin> set sweep_values" by (simp add: sweep_values_def)
  from len have "length (sweep_points 101 (accessibility ?s)) < 101"
    by (simp add: a sweep_points_values)
  from sweep_loop_points [OF r n this] obtain s' rs where
    e: "sweep_loop ?s = Some (Inr s')" and l: "length rs = 100"
    and c: "console s' = map2 (\<lambda>p r. Success p (Some r)) sweep_values rs"
    by (auto simp: a c0 sweep_points_values len)
  from e have 1: "Run sweep_1 = Some (Inr s')"
    by (simp add: Run_def) (simp add: sweep_1_def Speleo_new_def)
  from c l len have 2: "length (console s') = 100" by simp
  from l len have ne: "sweep_values \<noteq> []" "rs \<noteq> []" by auto
  with l len have "last (zip sweep_values rs) = (last sweep_values, last rs)"
    by (intro last_zip) simp_all
  with ne l len have 3: "last (console s') = Success (last sweep_values) (Some (last rs))"
    by (simp add: c last_map)
  have 4: "Success 1 r \<notin> set (console s')" for r
  proof
    assume "Success 1 r \<in> set (console s')"
    then obtain p q where "(p, q) \<in> set (zip sweep_values rs)" "p = 1"
      by (auto simp: c)
    then have "1 \<in> set sweep_values" by (auto dest: set_zip_leftD)
    with no1 show False ..
  qed
  from 1 2 3 4 lst show ?thesis by auto
qed

end
